theory Spec2Isabelle
  imports Main "HOL-Library.Multiset" "HOL-Library.Sublist"
begin

section \<open>Data model of the CycloneDX marshaler\<close>

text \<open>
  The Go types the marshaler reads and writes.  Named string types of the source
  (\<open>ftypes.TargetType\<close>, \<open>types.ResultClass\<close>, \<open>ftypes.ArtifactType\<close>,
  \<open>cdx.ComponentType\<close>) are strings here as well, since the code converts them with
  \<open>string(...)\<close> and \<open>cdx.ComponentType(...)\<close>.  A \<open>*core.Component\<close> is an address into
  an explicit store of components; \<open>None\<close> is the nil pointer.  The declarations of
  \<open>types.Report\<close>, \<open>types.Result\<close>, \<open>ftypes.Package\<close> and the other input types are
  not part of the sources at hand: the records hold the fields the marshaler reads, and
  the CycloneDX document of a Report (\<open>r.CycloneDX.Metadata.Component\<close>) is taken to be
  present whenever the marshaler reads it.
\<close>

text \<open>
  Go errors: a message, or an error wrapped by \<open>xerrors.Errorf("...: %w", err)\<close>.
\<close>

datatype error = Err string | Wrap string error

type_synonym addr = nat

record PackageURL =
  purl_Type :: string
  purl_Namespace :: string
  purl_Name :: string
  purl_Version :: string
  purl_Qualifiers :: "(string \<times> string) list"
  purl_Subpath :: string

record TrivyPackageURL =
  tp_PackageURL :: PackageURL
  tp_FilePath :: string

record Layer =
  layer_Digest :: string
  layer_DiffID :: string

record ftPackage =
  ID :: string
  Name :: string
  Version :: string
  Release :: string
  Epoch :: int
  Identifier_PURL :: "PackageURL option"
  SrcName :: string
  SrcVersion :: string
  SrcRelease :: string
  SrcEpoch :: int
  Modularitylabel :: string
  FilePath :: string
  PkgLayer :: Layer
  Maintainer :: string
  Licenses :: "string list"
  Digest :: string
  DependsOn :: "string list"
  Indirect :: bool

record DetectedVulnerability =
  VulnerabilityID :: string
  PkgID :: string
  PkgName :: string
  InstalledVersion :: string

record OS =
  os_Family :: string
  os_Name :: string

record Metadata =
  md_Size :: int
  md_OS :: "OS option"
  md_ImageID :: string
  md_DiffIDs :: "string list"
  md_RepoTags :: "string list"
  md_RepoDigests :: "string list"

text \<open>The marshaler's own \<open>Package\<close> struct: an embedded \<open>ftypes.Package\<close> plus three fields.\<close>

record Package =
  pkg_Package :: ftPackage
  pkg_Type :: string
  pkg_Metadata :: Metadata
  pkg_Vulnerabilities :: "DetectedVulnerability list"

record Property =
  prop_Namespace :: string
  prop_Name :: string
  prop_Value :: string

record Component =
  c_Type :: string
  c_Name :: string
  c_Group :: string
  c_Version :: string
  c_PackageURL :: "TrivyPackageURL option"
  c_Licenses :: "string list"
  c_Hashes :: "string list"
  c_Supplier :: string
  c_Properties :: "Property list"
  c_Components :: "addr option list"
  c_Vulnerabilities :: "DetectedVulnerability list"

record Result =
  res_Target :: string
  res_Class :: string
  res_Type :: string
  res_Packages :: "ftPackage list"
  res_Vulnerabilities :: "DetectedVulnerability list"

record ftProperty =
  fp_Name :: string
  fp_Value :: string

record ftComponent =
  fc_Type :: string
  fc_Name :: string
  fc_Group :: string
  fc_PackageURL :: string
  fc_Properties :: "ftProperty list"

record Report =
  SchemaVersion :: int
  ArtifactName :: string
  ArtifactType :: string
  rep_Metadata :: Metadata
  Results :: "Result list"
  CycloneDX_Metadata_Component :: ftComponent

subsection \<open>Constants\<close>

definition PropertySchemaVersion :: string where "PropertySchemaVersion = ''SchemaVersion''"
definition PropertyType :: string where "PropertyType = ''Type''"
definition PropertyClass :: string where "PropertyClass = ''Class''"
definition PropertySize :: string where "PropertySize = ''Size''"
definition PropertyImageID :: string where "PropertyImageID = ''ImageID''"
definition PropertyRepoDigest :: string where "PropertyRepoDigest = ''RepoDigest''"
definition PropertyDiffID :: string where "PropertyDiffID = ''DiffID''"
definition PropertyRepoTag :: string where "PropertyRepoTag = ''RepoTag''"
definition PropertyPkgID :: string where "PropertyPkgID = ''PkgID''"
definition PropertyPkgType :: string where "PropertyPkgType = ''PkgType''"
definition PropertySrcName :: string where "PropertySrcName = ''SrcName''"
definition PropertySrcVersion :: string where "PropertySrcVersion = ''SrcVersion''"
definition PropertySrcRelease :: string where "PropertySrcRelease = ''SrcRelease''"
definition PropertySrcEpoch :: string where "PropertySrcEpoch = ''SrcEpoch''"
definition PropertyModularitylabel :: string where "PropertyModularitylabel = ''Modularitylabel''"
definition PropertyFilePath :: string where "PropertyFilePath = ''FilePath''"
definition PropertyLayerDigest :: string where "PropertyLayerDigest = ''LayerDigest''"
definition PropertyLayerDiffID :: string where "PropertyLayerDiffID = ''LayerDiffID''"

lemmas Property_names =
  PropertySchemaVersion_def PropertyType_def PropertyClass_def PropertySize_def
  PropertyImageID_def PropertyRepoDigest_def PropertyDiffID_def PropertyRepoTag_def
  PropertyPkgID_def PropertyPkgType_def PropertySrcName_def PropertySrcVersion_def
  PropertySrcRelease_def PropertySrcEpoch_def PropertyModularitylabel_def
  PropertyFilePath_def PropertyLayerDigest_def PropertyLayerDiffID_def

text \<open>
  Modelled from the spec: the named constants of the packages \<open>ftypes\<close>, \<open>types\<close>,
  \<open>packageurl\<close>, \<open>purl\<close>, \<open>cdx\<close> and \<open>core\<close>, whose declarations are not part of the
  sources at hand.  The marshaler only compares them with each other and copies them into
  string fields; nothing below depends on their spelling, only on their being distinct.
\<close>

definition NodePkg :: string where "NodePkg = ''node-pkg''"
definition PythonPkg :: string where "PythonPkg = ''python-pkg''"
definition GemSpec :: string where "GemSpec = ''gemspec''"
definition Jar :: string where "Jar = ''jar''"
definition CondaPkg :: string where "CondaPkg = ''conda-pkg''"

definition ClassOSPkg :: string where "ClassOSPkg = ''os-pkgs''"
definition ClassLangPkg :: string where "ClassLangPkg = ''lang-pkgs''"

definition ArtifactContainerImage :: string where "ArtifactContainerImage = ''container_image''"
definition ArtifactFilesystem :: string where "ArtifactFilesystem = ''filesystem''"
definition ArtifactRepository :: string where "ArtifactRepository = ''repository''"
definition ArtifactCycloneDX :: string where "ArtifactCycloneDX = ''cyclonedx''"
definition ArtifactVM :: string where "ArtifactVM = ''vm''"

definition TypeMaven :: string where "TypeMaven = ''maven''"
definition TypeNPM :: string where "TypeNPM = ''npm''"
definition TypeOCI :: string where "TypeOCI = ''oci''"

definition ComponentTypeContainer :: string where "ComponentTypeContainer = ''container''"
definition ComponentTypeOS :: string where "ComponentTypeOS = ''operating-system''"
definition ComponentTypeApplication :: string where "ComponentTypeApplication = ''application''"
definition ComponentTypeLibrary :: string where "ComponentTypeLibrary = ''library''"

definition core_Namespace :: string where "core_Namespace = ''aquasecurity:trivy:''"

lemmas ftypes_names =
  NodePkg_def PythonPkg_def GemSpec_def Jar_def CondaPkg_def ClassOSPkg_def ClassLangPkg_def
  ArtifactContainerImage_def ArtifactFilesystem_def ArtifactRepository_def
  ArtifactCycloneDX_def ArtifactVM_def TypeMaven_def TypeNPM_def TypeOCI_def
  ComponentTypeContainer_def ComponentTypeOS_def ComponentTypeApplication_def
  ComponentTypeLibrary_def core_Namespace_def

text \<open>The zero values \<open>ftypes.Package{}\<close> and \<open>core.Component{}\<close>.\<close>

definition emptyPackage :: ftPackage where
  "emptyPackage = \<lparr>ID = [], Name = [], Version = [], Release = [], Epoch = 0,
     Identifier_PURL = None, SrcName = [], SrcVersion = [], SrcRelease = [], SrcEpoch = 0,
     Modularitylabel = [], FilePath = [], PkgLayer = \<lparr>layer_Digest = [], layer_DiffID = []\<rparr>,
     Maintainer = [], Licenses = [], Digest = [], DependsOn = [], Indirect = False\<rparr>"

definition emptyComponent :: Component where
  "emptyComponent = \<lparr>c_Type = [], c_Name = [], c_Group = [], c_Version = [],
     c_PackageURL = None, c_Licenses = [], c_Hashes = [], c_Supplier = [],
     c_Properties = [], c_Components = [], c_Vulnerabilities = []\<rparr>"

subsection \<open>Library functions of Go and \<open>lo\<close>\<close>

text \<open>\<open>strconv.Itoa\<close> and \<open>strconv.FormatInt(_, 10)\<close>: the decimal numeral of an integer.\<close>

fun digits10 :: "nat \<Rightarrow> string" where
  "digits10 n =
     (if n < 10 then [''0123456789'' ! n]
      else digits10 (n div 10) @ [''0123456789'' ! (n mod 10)])"

declare digits10.simps [simp del]

definition Itoa :: "int \<Rightarrow> string" where
  "Itoa i = (if i < 0 then CHR ''-'' # digits10 (nat (- i)) else digits10 (nat i))"

text \<open>\<open>strings.Join\<close>, \<open>strings.HasPrefix\<close> and \<open>strings.TrimPrefix\<close>.\<close>

fun strings_Join :: "string list \<Rightarrow> string \<Rightarrow> string" where
  "strings_Join [] sep = []"
| "strings_Join [x] sep = x"
| "strings_Join (x # y # ys) sep = x @ sep @ strings_Join (y # ys) sep"

definition strings_HasPrefix :: "string \<Rightarrow> string \<Rightarrow> bool" where
  "strings_HasPrefix s p = (take (length p) s = p)"

definition strings_TrimPrefix :: "string \<Rightarrow> string \<Rightarrow> string" where
  "strings_TrimPrefix s p = (if strings_HasPrefix s p then drop (length p) s else s)"

text \<open>
  \<open>lo.Filter\<close> hands the predicate the element and its index and keeps the elements the
  predicate accepts, in order.
\<close>

fun lo_Filter_from :: "nat \<Rightarrow> ('a \<Rightarrow> nat \<Rightarrow> bool) \<Rightarrow> 'a list \<Rightarrow> 'a list" where
  "lo_Filter_from i f [] = []"
| "lo_Filter_from i f (x # xs) =
     (if f x i then x # lo_Filter_from (Suc i) f xs else lo_Filter_from (Suc i) f xs)"

definition lo_Filter :: "'a list \<Rightarrow> ('a \<Rightarrow> nat \<Rightarrow> bool) \<Rightarrow> 'a list" where
  "lo_Filter xs f = lo_Filter_from 0 f xs"

text \<open>
  \<open>lo.GroupBy\<close> builds a Go map from keys to the elements with that key, in their order;
  reading a missing key of a Go map yields the nil slice.
\<close>

definition lo_GroupBy :: "'a list \<Rightarrow> ('a \<Rightarrow> 'k) \<Rightarrow> 'k \<Rightarrow> 'a list" where
  "lo_GroupBy xs f = (\<lambda>k. filter (\<lambda>x. f x = k) xs)"

text \<open>
  \<open>lo.SliceToMap\<close> stores the transformed pairs one after the other, a later pair
  replacing an earlier one with the same key.  The Go map is an association list with
  distinct keys; its order carries no meaning (see \<open>mapRange\<close> below).
\<close>

fun map_store :: "'k \<Rightarrow> 'v \<Rightarrow> ('k \<times> 'v) list \<Rightarrow> ('k \<times> 'v) list" where
  "map_store k v [] = [(k, v)]"
| "map_store k v ((k', v') # m) =
     (if k' = k then (k, v) # m else (k', v') # map_store k v m)"

definition lo_SliceToMap :: "'a list \<Rightarrow> ('a \<Rightarrow> 'k \<times> 'v) \<Rightarrow> ('k \<times> 'v) list" where
  "lo_SliceToMap xs f = fold (\<lambda>x m. map_store (fst (f x)) (snd (f x)) m) xs []"

section \<open>Leaf functions\<close>

subsection \<open>filterProperties\<close>

definition filterProperties :: "Property list \<Rightarrow> Property list" where
  "filterProperties props =
     lo_Filter props (\<lambda>property index.
       \<not> (prop_Value property = [] \<or>
          (prop_Name property = PropertySrcEpoch \<and> prop_Value property = ''0'')))"

subsection \<open>pkgComponent\<close>

text \<open>
  Modelled from the spec: \<open>purl.WithPath\<close> (package \<open>purl\<close> is not part of the sources at
  hand) yields "the raw identifier extended with the package's file path", and nothing for
  a package without identifier.
\<close>

definition purl_WithPath :: "PackageURL option \<Rightarrow> string \<Rightarrow> TrivyPackageURL option" where
  "purl_WithPath pu path =
     (case pu of None \<Rightarrow> None
      | Some p \<Rightarrow> Some \<lparr>tp_PackageURL = p, tp_FilePath = path\<rparr>)"

definition pkgProperties :: "Package \<Rightarrow> Property list" where
  "pkgProperties pkg =
     [\<lparr>prop_Namespace = [], prop_Name = PropertyPkgID, prop_Value = ID (pkg_Package pkg)\<rparr>,
      \<lparr>prop_Namespace = [], prop_Name = PropertyPkgType, prop_Value = pkg_Type pkg\<rparr>,
      \<lparr>prop_Namespace = [], prop_Name = PropertyFilePath, prop_Value = FilePath (pkg_Package pkg)\<rparr>,
      \<lparr>prop_Namespace = [], prop_Name = PropertySrcName, prop_Value = SrcName (pkg_Package pkg)\<rparr>,
      \<lparr>prop_Namespace = [], prop_Name = PropertySrcVersion, prop_Value = SrcVersion (pkg_Package pkg)\<rparr>,
      \<lparr>prop_Namespace = [], prop_Name = PropertySrcRelease, prop_Value = SrcRelease (pkg_Package pkg)\<rparr>,
      \<lparr>prop_Namespace = [], prop_Name = PropertySrcEpoch,
         prop_Value = Itoa (SrcEpoch (pkg_Package pkg))\<rparr>,
      \<lparr>prop_Namespace = [], prop_Name = PropertyModularitylabel,
         prop_Value = Modularitylabel (pkg_Package pkg)\<rparr>,
      \<lparr>prop_Namespace = [], prop_Name = PropertyLayerDigest,
         prop_Value = layer_Digest (PkgLayer (pkg_Package pkg))\<rparr>,
      \<lparr>prop_Namespace = [], prop_Name = PropertyLayerDiffID,
         prop_Value = layer_DiffID (PkgLayer (pkg_Package pkg))\<rparr>]"

text \<open>
  The three local variables \<open>name\<close>, \<open>version\<close> and \<open>group\<close> (here \<open>grp\<close>) of \<open>pkgComponent\<close> after the
  \<open>if pu := pkg.Identifier.PURL; pu != nil\<close> block.
\<close>

definition pkgIdentity :: "Package \<Rightarrow> string \<times> string \<times> string" where
  "pkgIdentity pkg =
     (let name = Name (pkg_Package pkg);
          version = Version (pkg_Package pkg);
          grp = []
      in case Identifier_PURL (pkg_Package pkg) of
           None \<Rightarrow> (name, grp, version)
         | Some pu \<Rightarrow>
             (let version = purl_Version pu
              in if purl_Type pu = TypeMaven \<or> purl_Type pu = TypeNPM
                 then (purl_Name pu, purl_Namespace pu, version)
                 else (name, grp, version)))"

definition pkgComponent :: "Package \<Rightarrow> error + Component option" where
  "pkgComponent pkg =
     (case pkgIdentity pkg of (name, grp, version) \<Rightarrow>
        Inr (Some
          \<lparr>c_Type = ComponentTypeLibrary,
           c_Name = name,
           c_Group = grp,
           c_Version = version,
           c_PackageURL = purl_WithPath (Identifier_PURL (pkg_Package pkg)) (FilePath (pkg_Package pkg)),
           c_Licenses = Licenses (pkg_Package pkg),
           c_Hashes = (if Digest (pkg_Package pkg) = [] then [] else [Digest (pkg_Package pkg)]),
           c_Supplier = Maintainer (pkg_Package pkg),
           c_Properties = filterProperties (pkgProperties pkg),
           c_Components = [],
           c_Vulnerabilities = pkg_Vulnerabilities pkg\<rparr>))"


section \<open>The component store\<close>

text \<open>
  Components are shared by pointer and mutated after they have been handed out
  (\<open>component.Components = append(...)\<close>), so they live in a store: a list of components,
  addressed by position.  Allocation appends to the store.  The memo map of
  \<open>marshalPackage\<close> is a \<open>map[string]*core.Component\<close>.
\<close>

type_synonym heap = "Component list"
type_synonym memo = "string \<rightharpoonup> addr"

definition alloc :: "Component \<Rightarrow> heap \<Rightarrow> addr \<times> heap" where
  "alloc c h = (length h, h @ [c])"

definition append_children :: "addr \<Rightarrow> addr option list \<Rightarrow> heap \<Rightarrow> heap" where
  "append_children a cs h = h[a := (h ! a)\<lparr>c_Components := c_Components (h ! a) @ cs\<rparr>]"

definition set_children :: "addr \<Rightarrow> addr option list \<Rightarrow> heap \<Rightarrow> heap" where
  "set_children a cs h = h[a := (h ! a)\<lparr>c_Components := cs\<rparr>]"

section \<open>What the marshaler takes from outside\<close>

text \<open>
  Functions of packages that are not part of the sources at hand are parameters of the
  model: \<open>purl.New\<close>, \<open>purl.FromString\<close> and \<open>utils.FormatVersion\<close>.  \<open>mapRange\<close> is the
  order in which a \<open>for ... range\<close> loop visits the entries of a Go map, which the
  language leaves open: it returns the entries of the map in the order of the visit.
\<close>

record Env =
  purl_New :: "string \<Rightarrow> Metadata \<Rightarrow> ftPackage \<Rightarrow> error + TrivyPackageURL option"
  purl_FromString :: "string \<Rightarrow> error + TrivyPackageURL"
  utils_FormatVersion :: "ftPackage \<Rightarrow> string"
  mapRange :: "(string \<times> Package) list \<Rightarrow> (string \<times> Package) list"

definition range_ok :: "Env \<Rightarrow> (string \<times> Package) list \<Rightarrow> bool" where
  "range_ok env m = (mset (mapRange env m) = mset m)"

text \<open>
  Modelled from the spec: \<open>Packages.ParentDeps\<close> (package \<open>ftypes\<close> is not part of the
  sources at hand) computes "for every Package ID, the set of Package IDs that declare it
  as a dependency (the parent map)", in "one pass building an inverse index from
  DependsOn".
\<close>

definition ParentDeps :: "ftPackage list \<Rightarrow> string \<Rightarrow> string list" where
  "ParentDeps pkgs = (\<lambda>d. remdups (map ID (filter (\<lambda>p. d \<in> set (DependsOn p)) pkgs)))"

section \<open>The marshaler\<close>

subsection \<open>marshalPackage\<close>

text \<open>
  The recursion of \<open>marshalPackage\<close> is bounded by a depth counter: \<open>None\<close> means the
  bound was hit, and the termination theorems below show that a bound of one more than
  the number of packages is never hit.  The call \<open>pkgComponent(pkg)\<close> goes through the
  parameter \<open>conv\<close>, which \<open>marshalResult\<close> instantiates with \<open>pkgComponent\<close>; this way the
  two branches for a failed conversion can be run although \<open>pkgComponent\<close> itself never
  takes them.  \<open>marshalDeps\<close> is the loop over \<open>pkg.DependsOn\<close>.
\<close>

type_synonym converter = "Package \<Rightarrow> error + Component option"

fun marshalDeps ::
  "(Package \<Rightarrow> heap \<times> memo \<Rightarrow> (error + addr option \<times> heap \<times> memo) option) \<Rightarrow>
   (string \<times> Package) list \<Rightarrow> addr \<Rightarrow> string list \<Rightarrow> heap \<times> memo \<Rightarrow>
   (error + heap \<times> memo) option" where
  "marshalDeps recur pkgs a [] st = Some (Inr st)"
| "marshalDeps recur pkgs a (dep # deps) st =
     (case map_of pkgs dep of
        None \<Rightarrow> marshalDeps recur pkgs a deps st
      | Some childPkg \<Rightarrow>
          (case recur childPkg st of
             None \<Rightarrow> None
           | Some (Inl e) \<Rightarrow> Some (Inl (Wrap ''failed to parse pkg'' e))
           | Some (Inr (child, h', components')) \<Rightarrow>
               marshalDeps recur pkgs a deps (append_children a [child] h', components')))"

fun marshalPackage ::
  "nat \<Rightarrow> converter \<Rightarrow> (string \<times> Package) list \<Rightarrow> Package \<Rightarrow> heap \<times> memo \<Rightarrow>
   (error + addr option \<times> heap \<times> memo) option" where
  "marshalPackage 0 conv pkgs pkg st = None"
| "marshalPackage (Suc n) conv pkgs pkg (h, components) =
     (case components (ID (pkg_Package pkg)) of
        Some c \<Rightarrow> Some (Inr (Some c, h, components))
      | None \<Rightarrow>
          (case conv pkg of
             Inl e \<Rightarrow> Some (Inl (Wrap ''failed to parse pkg'' e))
           | Inr None \<Rightarrow> Some (Inr (None, h, components))
           | Inr (Some component) \<Rightarrow>
               (case marshalDeps (marshalPackage n conv pkgs) pkgs (length h)
                       (DependsOn (pkg_Package pkg))
                       (h @ [component], components(ID (pkg_Package pkg) \<mapsto> length h)) of
                  None \<Rightarrow> None
                | Some (Inl e) \<Rightarrow> Some (Inl e)
                | Some (Inr (h', components')) \<Rightarrow> Some (Inr (Some (length h), h', components')))))"

subsection \<open>marshalPackages\<close>

definition vulnKey :: "DetectedVulnerability \<Rightarrow> string" where
  "vulnKey v = (if PkgID v = [] then PkgName v @ ''@'' @ InstalledVersion v else PkgID v)"

definition packageMap :: "Env \<Rightarrow> Metadata \<Rightarrow> Result \<Rightarrow> (string \<times> Package) list" where
  "packageMap env metadata result =
     (let vulns = lo_GroupBy (res_Vulnerabilities result) vulnKey
      in lo_SliceToMap (res_Packages result) (\<lambda>pkg.
           let pkgID = (if ID pkg = [] then Name pkg @ ''@'' @ utils_FormatVersion env pkg
                        else ID pkg)
           in (pkgID, \<lparr>pkg_Package = pkg, pkg_Type = res_Type result,
                       pkg_Metadata = metadata, pkg_Vulnerabilities = vulns pkgID\<rparr>)))"

text \<open>
  The loop \<open>for _, pkg := range pkgs\<close>.  Every root is built with a memo map of its own
  (\<open>make(map[string]*core.Component)\<close>).  On an error of \<open>marshalPackage\<close> the function
  returns \<open>nil, nil\<close>: no components and no error; the store is then the one before the
  failing call, since nothing that call allocated can be reached any more.
\<close>

fun marshalRoots ::
  "nat \<Rightarrow> converter \<Rightarrow> (string \<times> Package) list \<Rightarrow> (string \<Rightarrow> string list) \<Rightarrow>
   (string \<times> Package) list \<Rightarrow> addr option list \<Rightarrow> heap \<Rightarrow>
   (error + addr option list \<times> heap) option" where
  "marshalRoots n conv pkgs parents [] directComponents h = Some (Inr (directComponents, h))"
| "marshalRoots n conv pkgs parents ((k, pkg) # rest) directComponents h =
     (if Indirect (pkg_Package pkg) \<and> length (parents (ID (pkg_Package pkg))) \<noteq> 0
      then marshalRoots n conv pkgs parents rest directComponents h
      else (case marshalPackage n conv pkgs pkg (h, Map.empty) of
              None \<Rightarrow> None
            | Some (Inl e) \<Rightarrow> Some (Inr ([], h))
            | Some (Inr (None, h', components')) \<Rightarrow>
                marshalRoots n conv pkgs parents rest directComponents h'
            | Some (Inr (Some component, h', components')) \<Rightarrow>
                marshalRoots n conv pkgs parents rest (directComponents @ [Some component]) h'))"

definition marshalPackages ::
  "converter \<Rightarrow> Env \<Rightarrow> Metadata \<Rightarrow> Result \<Rightarrow> heap \<Rightarrow> (error + addr option list \<times> heap) option" where
  "marshalPackages conv env metadata result h =
     (let parents = ParentDeps (res_Packages result);
          pkgs = packageMap env metadata result
      in marshalRoots (Suc (length pkgs)) conv pkgs parents (mapRange env pkgs) [] h)"

subsection \<open>resultComponent and marshalResult\<close>

definition resultComponent :: "Result \<Rightarrow> OS option \<Rightarrow> Component" where
  "resultComponent r osFound =
     (let component = emptyComponent\<lparr>c_Name := res_Target r,
            c_Properties :=
              [\<lparr>prop_Namespace = [], prop_Name = PropertyType, prop_Value = res_Type r\<rparr>,
               \<lparr>prop_Namespace = [], prop_Name = PropertyClass, prop_Value = res_Class r\<rparr>]\<rparr>
      in if res_Class r = ClassOSPkg then
           (case osFound of
              None \<Rightarrow> component
            | Some os \<Rightarrow> component\<lparr>c_Name := os_Family os, c_Version := os_Name os\<rparr>)
           \<lparr>c_Type := ComponentTypeOS\<rparr>
         else if res_Class r = ClassLangPkg then component\<lparr>c_Type := ComponentTypeApplication\<rparr>
         else component)"

definition marshalResult ::
  "Env \<Rightarrow> Metadata \<Rightarrow> Result \<Rightarrow> heap \<Rightarrow> (error + addr option list \<times> heap) option" where
  "marshalResult env metadata result h =
     (if res_Type result = NodePkg \<or> res_Type result = PythonPkg \<or>
         res_Type result = GemSpec \<or> res_Type result = Jar \<or> res_Type result = CondaPkg
      then (case marshalPackages pkgComponent env metadata result h of
              None \<Rightarrow> None
            | Some (Inl e) \<Rightarrow> Some (Inl e)
            | Some (Inr (components, h')) \<Rightarrow> Some (Inr (components, h')))
      else if res_Class result = ClassOSPkg \<or> res_Class result = ClassLangPkg
      then (case alloc (resultComponent result (md_OS metadata)) h of
              (appComponent, h1) \<Rightarrow>
                (case marshalPackages pkgComponent env metadata result h1 of
                   None \<Rightarrow> None
                 | Some (Inl e) \<Rightarrow> Some (Inl e)
                 | Some (Inr (components, h2)) \<Rightarrow>
                     Some (Inr ([Some appComponent], set_children appComponent components h2))))
      else Some (Inr ([], h)))"

subsection \<open>rootComponent, toCoreComponent and MarshalReport\<close>

definition toCoreComponent :: "Env \<Rightarrow> ftComponent \<Rightarrow> error + Component" where
  "toCoreComponent env c =
     (let props = map (\<lambda>prop.
            if strings_HasPrefix (fp_Name prop) core_Namespace
            then \<lparr>prop_Namespace = core_Namespace,
                  prop_Name = strings_TrimPrefix (fp_Name prop) core_Namespace,
                  prop_Value = fp_Value prop\<rparr>
            else \<lparr>prop_Namespace = [], prop_Name = fp_Name prop,
                  prop_Value = fp_Value prop\<rparr>) (fc_Properties c)
      in if fc_PackageURL c \<noteq> [] then
           (case purl_FromString env (fc_PackageURL c) of
              Inl err \<Rightarrow> Inl (Wrap ''failed to parse purl'' err)
            | Inr p \<Rightarrow> Inr (emptyComponent\<lparr>c_Name := fc_Name c, c_Group := fc_Group c,
                               c_PackageURL := Some p, c_Type := fc_Type c,
                               c_Properties := props\<rparr>))
         else Inr (emptyComponent\<lparr>c_Name := fc_Name c, c_Group := fc_Group c,
                      c_PackageURL := None, c_Type := fc_Type c, c_Properties := props\<rparr>))"

text \<open>The part of \<open>rootComponent\<close> after the \<open>switch\<close>.\<close>

definition rootProperties :: "Report \<Rightarrow> Component \<Rightarrow> Property list \<Rightarrow> Component" where
  "rootProperties r root props0 =
     (let props = props0 @
            (if md_Size (rep_Metadata r) \<noteq> 0
             then [\<lparr>prop_Namespace = [], prop_Name = PropertySize,
                    prop_Value = Itoa (md_Size (rep_Metadata r))\<rparr>] else []);
          props = props @
            (if length (md_RepoDigests (rep_Metadata r)) > 0
             then [\<lparr>prop_Namespace = [], prop_Name = PropertyRepoDigest,
                    prop_Value = strings_Join (md_RepoDigests (rep_Metadata r)) '',''\<rparr>] else []);
          props = props @
            (if length (md_DiffIDs (rep_Metadata r)) > 0
             then [\<lparr>prop_Namespace = [], prop_Name = PropertyDiffID,
                    prop_Value = strings_Join (md_DiffIDs (rep_Metadata r)) '',''\<rparr>] else []);
          props = props @
            (if length (md_RepoTags (rep_Metadata r)) > 0
             then [\<lparr>prop_Namespace = [], prop_Name = PropertyRepoTag,
                    prop_Value = strings_Join (md_RepoTags (rep_Metadata r)) '',''\<rparr>] else [])
      in root\<lparr>c_Properties := filterProperties props\<rparr>)"

definition rootComponent :: "Env \<Rightarrow> Report \<Rightarrow> error + Component" where
  "rootComponent env r =
     (let root = emptyComponent\<lparr>c_Name := ArtifactName r\<rparr>;
          props = [\<lparr>prop_Namespace = [], prop_Name = PropertySchemaVersion,
                    prop_Value = Itoa (SchemaVersion r)\<rparr>]
      in if ArtifactType r = ArtifactContainerImage then
           (case purl_New env TypeOCI (rep_Metadata r) emptyPackage of
              Inl err \<Rightarrow> Inl (Wrap ''failed to new package url for oci'' err)
            | Inr p \<Rightarrow>
                Inr (rootProperties r
                  ((case p of None \<Rightarrow> root\<lparr>c_Type := ComponentTypeContainer\<rparr>
                    | Some pu \<Rightarrow> root\<lparr>c_Type := ComponentTypeContainer, c_PackageURL := Some pu\<rparr>))
                  (props @ [\<lparr>prop_Namespace = [], prop_Name = PropertyImageID,
                              prop_Value = md_ImageID (rep_Metadata r)\<rparr>])))
         else if ArtifactType r = ArtifactVM then
           Inr (rootProperties r (root\<lparr>c_Type := ComponentTypeContainer\<rparr>) props)
         else if ArtifactType r = ArtifactFilesystem \<or> ArtifactType r = ArtifactRepository then
           Inr (rootProperties r (root\<lparr>c_Type := ComponentTypeApplication\<rparr>) props)
         else if ArtifactType r = ArtifactCycloneDX then
           toCoreComponent env (CycloneDX_Metadata_Component r)
         else Inr (rootProperties r root props))"

text \<open>The loop \<open>for _, result := range r.Results\<close> of \<open>MarshalReport\<close>.\<close>

fun marshalResults ::
  "Env \<Rightarrow> Metadata \<Rightarrow> addr \<Rightarrow> Result list \<Rightarrow> heap \<Rightarrow> (error + heap) option" where
  "marshalResults env metadata root [] h = Some (Inr h)"
| "marshalResults env metadata root (result # results) h =
     (case marshalResult env metadata result h of
        None \<Rightarrow> None
      | Some (Inl e) \<Rightarrow> Some (Inl e)
      | Some (Inr (components, h')) \<Rightarrow>
          marshalResults env metadata root results (append_children root components h'))"

text \<open>
  \<open>MarshalReport\<close> starts from an empty store and returns the address of the root together
  with the store that holds the graph.
\<close>

definition MarshalReport :: "Env \<Rightarrow> Report \<Rightarrow> (error + addr \<times> heap) option" where
  "MarshalReport env r =
     (case rootComponent env r of
        Inl err \<Rightarrow> Some (Inl err)
      | Inr rootc \<Rightarrow>
          (case alloc rootc [] of
             (root, h) \<Rightarrow>
               (case marshalResults env (rep_Metadata r) root (Results r) h of
                  None \<Rightarrow> None
                | Some (Inl e) \<Rightarrow> Some (Inl e)
                | Some (Inr h') \<Rightarrow> Some (Inr (root, h')))))"


section \<open>Observations and example inputs\<close>

text \<open>
  \<open>node_data\<close> is a component without its children; \<open>pkgIDs\<close> are the \<open>ID\<close> fields of the
  packages in a package map.
\<close>

definition node_data :: "Component \<Rightarrow> Component" where
  "node_data c = c\<lparr>c_Components := []\<rparr>"

definition pkgIDs :: "(string \<times> Package) list \<Rightarrow> string set" where
  "pkgIDs pkgs = (\<lambda>e. ID (pkg_Package (snd e))) ` set pkgs"


definition mkProp :: "string \<Rightarrow> string \<Rightarrow> Property" where
  "mkProp n v = \<lparr>prop_Namespace = [], prop_Name = n, prop_Value = v\<rparr>"

definition mavenPackage :: Package where
  "mavenPackage =
     \<lparr>pkg_Package = emptyPackage\<lparr>ID := ''com.acme:lib:2.3.0'', Name := ''com.acme:lib'', Version := ''2.3.0-declared'',
        Identifier_PURL := Some \<lparr>purl_Type = TypeMaven, purl_Namespace = ''com.acme'', purl_Name = ''lib'',
          purl_Version = ''2.3.0'', purl_Qualifiers = [], purl_Subpath = []\<rparr>\<rparr>,
      pkg_Type = ''pom'',
      pkg_Metadata = \<lparr>md_Size = 0, md_OS = None, md_ImageID = [], md_DiffIDs = [], md_RepoTags = [], md_RepoDigests = []\<rparr>,
      pkg_Vulnerabilities = []\<rparr>"


text \<open>
  What a list of pointers points at in a store (\<open>nodes_at\<close>), pointers to components
  allocated between two stores (\<open>fresh_in\<close>), and a store that extends another without
  changing it (\<open>extends\<close>).
\<close>

definition nodes_at :: "heap \<Rightarrow> addr option list \<Rightarrow> Component list" where
  "nodes_at h ps = map (\<lambda>p. node_data (h ! the p)) ps"

definition fresh_in :: "heap \<Rightarrow> heap \<Rightarrow> addr option list \<Rightarrow> bool" where
  "fresh_in h h' ps = (\<forall>p \<in> set ps. \<exists>a. p = Some a \<and> length h \<le> a \<and> a < length h')"

definition extends :: "heap \<Rightarrow> heap \<Rightarrow> bool" where
  "extends h h' = (length h \<le> length h' \<and> (\<forall>b<length h. h' ! b = h ! b))"


text \<open>
  The root-level components a \<open>for ... range\<close> visit of the package map is expected to
  produce, without their children: for every visited entry that is not both indirect and
  recorded in the parent map, the component its conversion yields, if it yields one.
\<close>

definition rootData ::
  "converter \<Rightarrow> (string \<Rightarrow> string list) \<Rightarrow> (string \<times> Package) list \<Rightarrow> Component list" where
  "rootData conv parents es =
     concat (map (\<lambda>(k, pkg).
       if Indirect (pkg_Package pkg) \<and> parents (ID (pkg_Package pkg)) \<noteq> [] then []
       else (case conv pkg of Inr (Some c) \<Rightarrow> [node_data c] | _ \<Rightarrow> [])) es)"


text \<open>
  The five language-package types without a lock file, and what a Result is expected to
  contribute to the children of the root: its root-level package components for a floating
  Result, one intermediate component for any other OS-package or language-package Result,
  nothing otherwise.
\<close>

definition floating :: "Result \<Rightarrow> bool" where
  "floating result = (res_Type result = NodePkg \<or> res_Type result = PythonPkg \<or>
     res_Type result = GemSpec \<or> res_Type result = Jar \<or> res_Type result = CondaPkg)"

definition resultData :: "Env \<Rightarrow> Metadata \<Rightarrow> Result \<Rightarrow> Component list" where
  "resultData env metadata result =
     (if floating result
      then rootData pkgComponent (ParentDeps (res_Packages result))
             (mapRange env (packageMap env metadata result))
      else if res_Class result = ClassOSPkg \<or> res_Class result = ClassLangPkg
      then [node_data (resultComponent result (md_OS metadata))]
      else [])"


text \<open>The identifier failures of \<open>rootComponent\<close>.\<close>

definition identifier_fails :: "Env \<Rightarrow> Report \<Rightarrow> bool" where
  "identifier_fails env r =
     ((ArtifactType r = ArtifactContainerImage \<and>
         isl (purl_New env TypeOCI (rep_Metadata r) emptyPackage)) \<or>
      (ArtifactType r = ArtifactCycloneDX \<and>
         fc_PackageURL (CycloneDX_Metadata_Component r) \<noteq> [] \<and>
         isl (purl_FromString env (fc_PackageURL (CycloneDX_Metadata_Component r)))))"


text \<open>
  The entry of the package map for a package with an \<open>ID\<close>: what the function handed to
  \<open>lo.SliceToMap\<close> builds.
\<close>

definition packageOf :: "Metadata \<Rightarrow> Result \<Rightarrow> ftPackage \<Rightarrow> Package" where
  "packageOf metadata result pkg =
     \<lparr>pkg_Package = pkg, pkg_Type = res_Type result, pkg_Metadata = metadata,
      pkg_Vulnerabilities = lo_GroupBy (res_Vulnerabilities result) vulnKey (ID pkg)\<rparr>"

text \<open>
  What one build of a root leaves in the store.  \<open>resolved\<close> are the dependencies of a
  package that are present in the package map.  A component at address \<open>b\<close> is \<open>built\<close>
  when there is a package of the package map from which it was converted (the component
  without its children is what the conversion of that package yields), when it is the
  memo map's component for the \<open>ID\<close> of that package, and when its children are, in
  order, the memo map's components for the \<open>ID\<close>s of that package's resolved
  dependencies, none of them nil.  A \<open>shared_build\<close> is a range of addresses in which the
  memo map takes all its values and every component is built: the range holds one
  component for each \<open>ID\<close> of the memo map, all parents of a package in the range point
  at that one component, and no pointer leaves the range.  \<open>candidates\<close> are the packages
  the \<open>range\<close> loop does not skip, in the order of the visit.  A list of roots with their
  packages is \<open>segmented\<close> when the store between two addresses splits into consecutive
  ranges, one for each root and starting at it, such that the range of a root is what
  \<open>marshalPackage\<close> adds to the store before it when called for the root's package with
  an empty memo map, the root is converted from its package and has as children the memo
  map's components for its resolved dependencies, and the range is a shared build for the
  memo map of that very call.
  \<open>post_pkg\<close> is what a successful call of \<open>marshalPackage\<close> guarantees.
\<close>

definition resolved :: "(string \<times> Package) list \<Rightarrow> string list \<Rightarrow> Package list" where
  "resolved pkgs deps = List.map_filter (map_of pkgs) deps"

definition built ::
  "converter \<Rightarrow> (string \<times> Package) list \<Rightarrow> heap \<Rightarrow> memo \<Rightarrow> addr \<Rightarrow> bool" where
  "built conv pkgs h m b =
     (\<exists>q::Package. q \<in> snd ` set pkgs \<and>
          conv q = Inr (Some (node_data (h ! b))) \<and>
          m (ID (pkg_Package q)) = Some b \<and>
          c_Components (h ! b) =
            map (\<lambda>cp. m (ID (pkg_Package cp))) (resolved pkgs (DependsOn (pkg_Package q))) \<and>
          None \<notin> set (c_Components (h ! b)))"

definition shared_build ::
  "converter \<Rightarrow> (string \<times> Package) list \<Rightarrow> heap \<Rightarrow> memo \<Rightarrow> addr \<Rightarrow> addr \<Rightarrow> bool" where
  "shared_build conv pkgs h m lo hi =
     ((\<forall>i b. m i = Some b \<longrightarrow> lo \<le> b \<and> b < hi) \<and>
      (\<forall>b. lo \<le> b \<and> b < hi \<longrightarrow> built conv pkgs h m b))"

definition candidates :: "(string \<Rightarrow> string list) \<Rightarrow> (string \<times> Package) list \<Rightarrow> Package list" where
  "candidates parents es =
     map snd (filter (\<lambda>e. \<not> (Indirect (pkg_Package (snd e)) \<and>
                               parents (ID (pkg_Package (snd e))) \<noteq> [])) es)"

fun segmented ::
  "nat \<Rightarrow> converter \<Rightarrow> (string \<times> Package) list \<Rightarrow> heap \<Rightarrow> (addr option \<times> Package) list \<Rightarrow>
   addr \<Rightarrow> addr \<Rightarrow> bool" where
  "segmented n conv pkgs h [] lo hi = (lo = hi)"
| "segmented n conv pkgs h ((r, pkg) # rs) lo hi =
     (\<exists>mid m. r = Some lo \<and> lo < mid \<and> mid \<le> hi \<and>
        marshalPackage n conv pkgs pkg (take lo h, Map.empty) =
          Some (Inr (Some lo, take mid h, m)) \<and>
        conv pkg = Inr (Some (node_data (h ! lo))) \<and>
        c_Components (h ! lo) =
          map (\<lambda>cp. m (ID (pkg_Package cp))) (resolved pkgs (DependsOn (pkg_Package pkg))) \<and>
        shared_build conv pkgs h m lo mid \<and>
        segmented n conv pkgs h rs mid hi)"

definition post_pkg ::
  "converter \<Rightarrow> (string \<times> Package) list \<Rightarrow> Package \<Rightarrow> heap \<Rightarrow> memo \<Rightarrow> addr option \<Rightarrow>
   heap \<Rightarrow> memo \<Rightarrow> bool" where
  "post_pkg conv pkgs pkg h m r h' m' =
     (m \<subseteq>\<^sub>m m' \<and> length h \<le> length h' \<and> (\<forall>b<length h. h' ! b = h ! b) \<and>
      (\<exists>a. r = Some a \<and> m' (ID (pkg_Package pkg)) = Some a) \<and>
      (m (ID (pkg_Package pkg)) = None \<longrightarrow>
         conv pkg = Inr (Some (node_data (h' ! length h))) \<and>
         c_Components (h' ! length h) =
           map (\<lambda>cp. m' (ID (pkg_Package cp))) (resolved pkgs (DependsOn (pkg_Package pkg)))) \<and>
      (\<forall>i b. m' i = Some b \<longrightarrow> m i = Some b \<or> (length h \<le> b \<and> b < length h')) \<and>
      (\<forall>b. length h \<le> b \<and> b < length h' \<longrightarrow> built conv pkgs h' m' b))"

text \<open>
  A graph read without addresses and without the order of children.  \<open>mv d h p\<close> unfolds
  the store \<open>h\<close> from the pointer \<open>p\<close> to depth \<open>d\<close> into a tree whose nodes carry the
  component without its children and the multiset of the subtrees.  Two graphs with the
  same unfolding at every depth have the same components with the same children up to
  their order, whatever the addresses are and whether or not the graph has cycles.
\<close>

datatype mview = MCut | MNil | MNode Component "mview multiset"

fun mv :: "nat \<Rightarrow> heap \<Rightarrow> addr option \<Rightarrow> mview" where
  "mv 0 h p = MCut"
| "mv (Suc d) h None = MNil"
| "mv (Suc d) h (Some a) =
     MNode (node_data (h ! a)) (image_mset (mv d h) (mset (c_Components (h ! a))))"

text \<open>
  A component moved by \<open>k\<close> addresses, a store with a second store moved behind it
  (together with its memo map), and a range of addresses no child pointer leaves.
\<close>

definition lift :: "nat \<Rightarrow> Component \<Rightarrow> Component" where
  "lift k c = c\<lparr>c_Components := map (map_option (\<lambda>x. x + k)) (c_Components c)\<rparr>"

definition closed_in :: "heap \<Rightarrow> addr \<Rightarrow> addr \<Rightarrow> bool" where
  "closed_in h lo hi =
     (\<forall>x. lo \<le> x \<and> x < hi \<longrightarrow>
        (\<forall>c \<in> set (c_Components (h ! x)). \<exists>y. c = Some y \<and> lo \<le> y \<and> y < hi))"

definition reloc_state :: "heap \<Rightarrow> heap \<times> memo \<Rightarrow> heap \<times> memo" where
  "reloc_state h0 st =
     (h0 @ map (lift (length h0)) (fst st), map_option (\<lambda>x. x + length h0) \<circ> snd st)"

definition reloc_deps :: "heap \<Rightarrow> (error + heap \<times> memo) option \<Rightarrow> (error + heap \<times> memo) option" where
  "reloc_deps h0 res = map_option (map_sum id (reloc_state h0)) res"

definition reloc_res ::
  "heap \<Rightarrow> (error + addr option \<times> heap \<times> memo) option \<Rightarrow>
   (error + addr option \<times> heap \<times> memo) option" where
  "reloc_res h0 res =
     map_option (map_sum id (\<lambda>(r, st). (map_option (\<lambda>x. x + length h0) r, reloc_state h0 st))) res"

text \<open>
  The graph a Report is expected to unfold to.  \<open>rootTree\<close> is the unfolding of one root
  package, built on an empty store; \<open>forestTrees\<close> are the trees of the candidate roots
  of a Result, taken from the package map as a multiset; \<open>resultTrees\<close> is what a Result
  hangs under the root; \<open>reportTree\<close> is the whole graph.  None of them looks at
  \<open>mapRange\<close>.
\<close>

definition rootTree :: "nat \<Rightarrow> nat \<Rightarrow> converter \<Rightarrow> (string \<times> Package) list \<Rightarrow> Package \<Rightarrow> mview" where
  "rootTree n d conv pkgs pkg =
     (case marshalPackage n conv pkgs pkg ([], Map.empty) of
        Some (Inr (r, g, m)) \<Rightarrow> mv d g r
      | _ \<Rightarrow> MCut)"

definition forestTrees :: "Env \<Rightarrow> nat \<Rightarrow> Metadata \<Rightarrow> Result \<Rightarrow> mview multiset" where
  "forestTrees env d metadata result =
     image_mset
       (\<lambda>e. rootTree (Suc (length (packageMap env metadata result))) d pkgComponent
              (packageMap env metadata result) (snd e))
       (filter_mset
          (\<lambda>e. \<not> (Indirect (pkg_Package (snd e)) \<and>
                   ParentDeps (res_Packages result) (ID (pkg_Package (snd e))) \<noteq> []))
          (mset (packageMap env metadata result)))"

definition resultTrees :: "Env \<Rightarrow> nat \<Rightarrow> Metadata \<Rightarrow> Result \<Rightarrow> mview multiset" where
  "resultTrees env d metadata result =
     (if floating result then forestTrees env d metadata result
      else if res_Class result = ClassOSPkg \<or> res_Class result = ClassLangPkg
      then {#case d of 0 \<Rightarrow> MCut
             | Suc d' \<Rightarrow> MNode (node_data (resultComponent result (md_OS metadata)))
                          (forestTrees env d' metadata result)#}
      else {#})"

definition reportTree :: "Env \<Rightarrow> nat \<Rightarrow> Report \<Rightarrow> mview" where
  "reportTree env d r =
     (case rootComponent env r of
        Inl e \<Rightarrow> MCut
      | Inr rootc \<Rightarrow>
          (case d of 0 \<Rightarrow> MCut
           | Suc d' \<Rightarrow> MNode (node_data rootc)
                        (sum_list (map (resultTrees env d' (rep_Metadata r)) (Results r)))))"

subsection \<open>Example inputs\<close>

definition mkPkg :: "string \<Rightarrow> string \<Rightarrow> string \<Rightarrow> string list \<Rightarrow> bool \<Rightarrow> ftPackage" where
  "mkPkg i n v ds b = emptyPackage\<lparr>ID := i, Name := n, Version := v, DependsOn := ds, Indirect := b\<rparr>"

definition env0 :: Env where
  "env0 = \<lparr>purl_New = (\<lambda>t m p. Inr None), purl_FromString = (\<lambda>s. Inl (Err ''invalid purl'')),
            utils_FormatVersion = Version, mapRange = (\<lambda>m. m)\<rparr>"

definition env_rev :: Env where
  "env_rev = env0\<lparr>mapRange := rev\<rparr>"

definition env_bad :: Env where
  "env_bad = env0\<lparr>purl_New := (\<lambda>t m p. Inl (Err ''invalid image reference''))\<rparr>"

definition md0 :: Metadata where
  "md0 = \<lparr>md_Size = 0, md_OS = None, md_ImageID = [], md_DiffIDs = [], md_RepoTags = [],
           md_RepoDigests = []\<rparr>"

definition mkResult :: "string \<Rightarrow> string \<Rightarrow> string \<Rightarrow> ftPackage list \<Rightarrow> Result" where
  "mkResult target class type pkgs =
     \<lparr>res_Target = target, res_Class = class, res_Type = type, res_Packages = pkgs,
      res_Vulnerabilities = []\<rparr>"

definition mkReport :: "string \<Rightarrow> Result list \<Rightarrow> Report" where
  "mkReport atype rs =
     \<lparr>SchemaVersion = 2, ArtifactName = ''artifact'', ArtifactType = atype, rep_Metadata = md0,
      Results = rs,
      CycloneDX_Metadata_Component =
        \<lparr>fc_Type = [], fc_Name = [], fc_Group = [], fc_PackageURL = [], fc_Properties = []\<rparr>\<rparr>"

definition res_scenario :: Result where
  "res_scenario = mkResult ''/app/package-lock.json'' ClassLangPkg ''npm''
     [mkPkg ''express@4.17.3'' ''express'' ''4.17.3'' [''accepts@1.3.8''] False,
      mkPkg ''accepts@1.3.8'' ''accepts'' ''1.3.8'' [] True]"

definition res_self :: Result where
  "res_self = mkResult ''/app/package-lock.json'' ClassLangPkg ''npm''
     [mkPkg ''p@1'' ''p'' ''1'' [''p@1''] True]"

definition res_diamond :: Result where
  "res_diamond = mkResult ''/app/package-lock.json'' ClassLangPkg ''npm''
     [mkPkg ''a@1'' ''a'' ''1'' [''p@1''] False, mkPkg ''b@1'' ''b'' ''1'' [''p@1''] False,
      mkPkg ''p@1'' ''p'' ''1'' [] True]"

definition res_cycle :: Result where
  "res_cycle = mkResult ''/app/package-lock.json'' ClassLangPkg ''npm''
     [mkPkg ''a@1'' ''a'' ''1'' [''b@1''] False, mkPkg ''b@1'' ''b'' ''1'' [''a@1''] False]"

definition res_two :: Result where
  "res_two = mkResult ''node_modules'' ClassLangPkg NodePkg
     [mkPkg ''a@1'' ''a'' ''1'' [] False, mkPkg ''b@1'' ''b'' ''1'' [] False]"

definition res_config :: Result where
  "res_config = mkResult ''main.tf'' ''config'' ''terraform'' [mkPkg ''a@1'' ''a'' ''1'' [] False]"

definition res_shared :: Result where
  "res_shared = mkResult ''/app/package-lock.json'' ClassLangPkg ''npm''
     [mkPkg ''x@1'' ''x'' ''1'' [''a@1'', ''b@1''] False,
      mkPkg ''a@1'' ''a'' ''1'' [''p@1''] True, mkPkg ''b@1'' ''b'' ''1'' [''p@1''] True,
      mkPkg ''p@1'' ''p'' ''1'' [] True]"

definition graph_of :: "(error + addr \<times> heap) option \<Rightarrow> (addr \<times> (string \<times> addr option list) list) option" where
  "graph_of res = (case res of Some (Inr (root, h)) \<Rightarrow> Some (root, map (\<lambda>c. (c_Name c, c_Components c)) h)
                   | _ \<Rightarrow> None)"

definition forest_of :: "(error + addr option list \<times> heap) option \<Rightarrow>
    (addr option list \<times> (string \<times> addr option list) list) option" where
  "forest_of res = (case res of Some (Inr (roots, h)) \<Rightarrow> Some (roots, map (\<lambda>c. (c_Name c, c_Components c)) h)
                   | _ \<Rightarrow> None)"

lemmas example_defs =
  mkPkg_def env0_def env_rev_def env_bad_def md0_def mkResult_def mkReport_def res_scenario_def
  res_self_def res_diamond_def res_cycle_def res_two_def res_config_def res_shared_def
  graph_of_def forest_of_def emptyPackage_def emptyComponent_def

lemmas marshal_defs =
  MarshalReport_def rootComponent_def rootProperties_def toCoreComponent_def marshalResult_def
  resultComponent_def marshalPackages_def packageMap_def vulnKey_def ParentDeps_def
  lo_SliceToMap_def lo_GroupBy_def pkgComponent_def pkgIdentity_def pkgProperties_def
  purl_WithPath_def filterProperties_def lo_Filter_def alloc_def append_children_def
  set_children_def Itoa_def digits10.simps strings_HasPrefix_def strings_TrimPrefix_def
  ftypes_names Property_names Let_def


section \<open>The memo map only grows, and a call leaves older components alone\<close>

lemma length_append_children [simp]: "length (append_children a cs h) = length h"
  by (simp add: append_children_def)

lemma nth_append_children_other [simp]: "b \<noteq> a \<Longrightarrow> append_children a cs h ! b = h ! b"
  by (simp add: append_children_def)

lemma node_data_append_children [simp]:
  "node_data (append_children a cs h ! b) = node_data (h ! b)"
  by (cases "b = a"; cases "a < length h")
    (simp_all add: append_children_def node_data_def list_update_beyond)

lemma children_append_children [simp]:
  "a < length h \<Longrightarrow> c_Components (append_children a cs h ! a) = c_Components (h ! a) @ cs"
  by (simp add: append_children_def)

lemma marshalDeps_frame:
  assumes recur: "\<And>cp h m r h' m'. recur cp (h, m) = Some (Inr (r, h', m')) \<Longrightarrow>
     m \<subseteq>\<^sub>m m' \<and> length h \<le> length h' \<and> (\<forall>b<length h. h' ! b = h ! b)"
  shows "marshalDeps recur pkgs a deps (h, m) = Some (Inr (h', m')) \<Longrightarrow> a < length h \<Longrightarrow>
     m \<subseteq>\<^sub>m m' \<and> length h \<le> length h' \<and> (\<forall>b<length h. b \<noteq> a \<longrightarrow> h' ! b = h ! b) \<and>
     node_data (h' ! a) = node_data (h ! a)"
proof (induction deps arbitrary: h m)
  case Nil
  then show ?case by simp
next
  case (Cons dep deps)
  show ?case
  proof (cases "map_of pkgs dep")
    case None
    with Cons.prems have "marshalDeps recur pkgs a deps (h, m) = Some (Inr (h', m'))" by simp
    then show ?thesis using Cons.prems(2) by (rule Cons.IH)
  next
    case (Some cp)
    with Cons.prems obtain child h1 m1 where
      r: "recur cp (h, m) = Some (Inr (child, h1, m1))" and
      d: "marshalDeps recur pkgs a deps (append_children a [child] h1, m1) = Some (Inr (h', m'))"
      by (auto split: option.splits sum.splits)
    from recur [OF r] have r1: "m \<subseteq>\<^sub>m m1" and r2: "length h \<le> length h1"
      and r3: "\<And>b. b < length h \<Longrightarrow> h1 ! b = h ! b" by auto
    have a1: "a < length (append_children a [child] h1)" using Cons.prems(2) r2 by simp
    from Cons.IH [OF d a1] have i1: "m1 \<subseteq>\<^sub>m m'" and i2: "length h1 \<le> length h'"
      and i3: "\<And>b. b < length h1 \<Longrightarrow> b \<noteq> a \<Longrightarrow> h' ! b = h1 ! b"
      and i4: "node_data (h' ! a) = node_data (h1 ! a)" by auto
    have "m \<subseteq>\<^sub>m m'" using r1 i1 by (rule map_le_trans)
    moreover have "length h \<le> length h'" using r2 i2 by simp
    moreover have "\<forall>b<length h. b \<noteq> a \<longrightarrow> h' ! b = h ! b" using r2 r3 i3 by auto
    moreover have "node_data (h' ! a) = node_data (h ! a)"
      using i4 r3 Cons.prems(2) by simp
    ultimately show ?thesis by blast
  qed
qed

lemma marshalPackage_frame:
  "marshalPackage n conv pkgs pkg (h, m) = Some (Inr (r, h', m')) \<Longrightarrow>
     m \<subseteq>\<^sub>m m' \<and> length h \<le> length h' \<and> (\<forall>b<length h. h' ! b = h ! b)"
proof (induction n arbitrary: pkg h m r h' m')
  case 0
  then show ?case by simp
next
  case (Suc n)
  show ?case
  proof (cases "m (ID (pkg_Package pkg))")
    case (Some c)
    with Suc.prems show ?thesis by simp
  next
    case None
    show ?thesis
    proof (cases "conv pkg")
      case (Inl e)
      with None Suc.prems show ?thesis by simp
    next
      case (Inr oc)
      show ?thesis
      proof (cases oc)
        case None': None
        with None Inr Suc.prems show ?thesis by simp
      next
        case (Some c)
        let ?m1 = "m(ID (pkg_Package pkg) \<mapsto> length h)"
        from None Inr Some Suc.prems have
          d: "marshalDeps (marshalPackage n conv pkgs) pkgs (length h) (DependsOn (pkg_Package pkg))
                (h @ [c], ?m1) = Some (Inr (h', m'))"
          by (auto split: option.splits sum.splits)
        have "?m1 \<subseteq>\<^sub>m m' \<and> length (h @ [c]) \<le> length h' \<and>
          (\<forall>b<length (h @ [c]). b \<noteq> length h \<longrightarrow> h' ! b = (h @ [c]) ! b) \<and>
          node_data (h' ! length h) = node_data ((h @ [c]) ! length h)"
          by (rule marshalDeps_frame [OF Suc.IH d]) simp_all
        moreover have "m \<subseteq>\<^sub>m ?m1" using None by (auto simp: map_le_def)
        ultimately show ?thesis by (auto intro: map_le_trans simp: nth_append)
      qed
    qed
  qed
qed

lemma marshalPackage_root:
  assumes "marshalPackage n conv pkgs pkg (h, m) = Some (Inr (r, h', m'))"
    and "m (ID (pkg_Package pkg)) = None"
  shows "(case conv pkg of Inr (Some c) \<Rightarrow> r = Some (length h) \<and> length h < length h' \<and>
            node_data (h' ! length h) = node_data c
          | _ \<Rightarrow> r = None \<and> h' = h)"
proof (cases n)
  case 0
  with assms show ?thesis by simp
next
  case (Suc k)
  show ?thesis
  proof (cases "conv pkg")
    case (Inl e)
    with Suc assms show ?thesis by simp
  next
    case (Inr oc)
    show ?thesis
    proof (cases oc)
      case None
      with Suc Inr assms show ?thesis by simp
    next
      case (Some c)
      from Suc Inr Some assms have
        d: "marshalDeps (marshalPackage k conv pkgs) pkgs (length h) (DependsOn (pkg_Package pkg))
              (h @ [c], m(ID (pkg_Package pkg) \<mapsto> length h)) = Some (Inr (h', m'))"
        and r: "r = Some (length h)"
        by (auto split: option.splits sum.splits)
      have "length (h @ [c]) \<le> length h' \<and>
          node_data (h' ! length h) = node_data ((h @ [c]) ! length h)"
        using marshalDeps_frame [OF marshalPackage_frame d] by simp
      with r Inr Some show ?thesis by simp
    qed
  qed
qed

lemma finite_pkgIDs [simp]: "finite (pkgIDs pkgs)"
  by (simp add: pkgIDs_def)

lemma marshalDeps_returns:
  assumes frame: "\<And>cp h m r h' m'. recur cp (h, m) = Some (Inr (r, h', m')) \<Longrightarrow> m \<subseteq>\<^sub>m m'"
    and ret: "\<And>cp h m. cp \<in> snd ` set pkgs \<Longrightarrow> card (pkgIDs pkgs - dom m) < n \<Longrightarrow>
       recur cp (h, m) \<noteq> None"
  shows "card (pkgIDs pkgs - dom m) < n \<Longrightarrow> marshalDeps recur pkgs a deps (h, m) \<noteq> None"
proof (induction deps arbitrary: h m)
  case Nil
  then show ?case by simp
next
  case (Cons dep deps)
  show ?case
  proof (cases "map_of pkgs dep")
    case None
    then show ?thesis using Cons.IH [OF Cons.prems] by simp
  next
    case (Some cp)
    then have "cp \<in> snd ` set pkgs" by (force dest: map_of_SomeD)
    from ret [OF this Cons.prems] obtain res where res: "recur cp (h, m) = Some res" by blast
    show ?thesis
    proof (cases res)
      case (Inl e)
      with Some res show ?thesis by simp
    next
      case (Inr t)
      then obtain child h1 m1 where t: "res = Inr (child, h1, m1)" by (cases t) auto
      from frame res t have "m \<subseteq>\<^sub>m m1" by blast
      then have "dom m \<subseteq> dom m1" by (rule map_le_implies_dom_le)
      then have "card (pkgIDs pkgs - dom m1) \<le> card (pkgIDs pkgs - dom m)"
        by (intro card_mono) auto
      with Cons.prems have "card (pkgIDs pkgs - dom m1) < n" by simp
      from Cons.IH [OF this] Some res t show ?thesis by simp
    qed
  qed
qed

lemma marshalPackage_returns:
  "pkg \<in> snd ` set pkgs \<Longrightarrow> card (pkgIDs pkgs - dom m) < n \<Longrightarrow>
     marshalPackage n conv pkgs pkg (h, m) \<noteq> None"
proof (induction n arbitrary: pkg h m)
  case 0
  then show ?case by simp
next
  case (Suc n)
  show ?case
  proof (cases "m (ID (pkg_Package pkg))")
    case (Some c)
    then show ?thesis by simp
  next
    case None
    show ?thesis
    proof (cases "conv pkg")
      case (Inl e)
      with None show ?thesis by simp
    next
      case (Inr oc)
      show ?thesis
      proof (cases oc)
        case None': None
        with None Inr show ?thesis by simp
      next
        case (Some c)
        let ?m1 = "m(ID (pkg_Package pkg) \<mapsto> length h)"
        have "ID (pkg_Package pkg) \<in> pkgIDs pkgs - dom m"
          using Suc.prems(1) None by (auto simp: pkgIDs_def)
        then have "card (pkgIDs pkgs - dom m - {ID (pkg_Package pkg)}) < card (pkgIDs pkgs - dom m)"
          by (intro card_Diff1_less) auto
        moreover have "pkgIDs pkgs - dom ?m1 = pkgIDs pkgs - dom m - {ID (pkg_Package pkg)}"
          by auto
        ultimately have c: "card (pkgIDs pkgs - dom ?m1) < n" using Suc.prems(2) by simp
        have "marshalDeps (marshalPackage n conv pkgs) pkgs (length h) (DependsOn (pkg_Package pkg))
                (h @ [c], ?m1) \<noteq> None"
        proof (rule marshalDeps_returns [OF _ _ c])
          show "\<And>cp h m r h' m'. marshalPackage n conv pkgs cp (h, m) = Some (Inr (r, h', m')) \<Longrightarrow>
             m \<subseteq>\<^sub>m m'" using marshalPackage_frame by blast
          show "\<And>cp h m. cp \<in> snd ` set pkgs \<Longrightarrow> card (pkgIDs pkgs - dom m) < n \<Longrightarrow>
             marshalPackage n conv pkgs cp (h, m) \<noteq> None" by (rule Suc.IH)
        qed
        with None Inr Some show ?thesis by (auto split: option.splits sum.splits)
      qed
    qed
  qed
qed

section \<open>The loop over the package map\<close>

lemma extends_refl [simp]: "extends h h"
  by (simp add: extends_def)

lemma extends_trans: "extends h h1 \<Longrightarrow> extends h1 h2 \<Longrightarrow> extends h h2"
  by (auto simp: extends_def)

lemma marshalDeps_no_error:
  assumes recur: "\<And>cp st e. recur cp st \<noteq> Some (Inl e)"
  shows "marshalDeps recur pkgs a deps st \<noteq> Some (Inl e)"
proof (induction deps arbitrary: st)
  case Nil
  then show ?case by simp
next
  case (Cons dep deps)
  then show ?case using recur
    by (auto split: option.splits sum.splits)
qed

lemma marshalPackage_no_error:
  assumes "\<And>p. \<not> isl (conv p)"
  shows "marshalPackage n conv pkgs pkg st \<noteq> Some (Inl e)"
proof (induction n arbitrary: pkg st e)
  case 0
  then show ?case by simp
next
  case (Suc n)
  obtain h m where st: "st = (h, m)" by (cases st)
  have d: "\<And>a deps st' e'. marshalDeps (marshalPackage n conv pkgs) pkgs a deps st' \<noteq> Some (Inl e')"
    by (rule marshalDeps_no_error) (rule Suc.IH)
  show ?case
  proof (cases "conv pkg")
    case (Inl x)
    with assms [of pkg] show ?thesis by simp
  next
    case (Inr oc)
    then show ?thesis using d unfolding st
      by (auto split: option.splits sum.splits)
  qed
qed

lemma card_pkgIDs_le: "card (pkgIDs pkgs) \<le> length pkgs"
  unfolding pkgIDs_def by (rule order_trans [OF card_image_le card_length]) simp


lemma marshalRoots_spec:
  assumes noerr: "\<And>p. \<not> isl (conv p)" and fuel: "length pkgs < n"
  shows "set es \<subseteq> set pkgs \<Longrightarrow>
    \<exists>new h'. marshalRoots n conv pkgs parents es direct h = Some (Inr (direct @ new, h')) \<and>
       extends h h' \<and> fresh_in h h' new \<and> nodes_at h' new = rootData conv parents es"
proof (induction es arbitrary: direct h)
  case Nil
  then show ?case by (simp add: fresh_in_def nodes_at_def rootData_def)
next
  case (Cons x es)
  obtain k pkg where x: "x = (k, pkg)" by (cases x)
  from Cons.prems have sub: "set es \<subseteq> set pkgs" and mem: "(k, pkg) \<in> set pkgs"
    by (auto simp: x)
  show ?case
  proof (cases "Indirect (pkg_Package pkg) \<and> parents (ID (pkg_Package pkg)) \<noteq> []")
    case True
    from Cons.IH [OF sub, of direct h] True show ?thesis
      by (simp add: x rootData_def)
  next
    case False
    have "pkg \<in> snd ` set pkgs" using mem by force
    moreover have "card (pkgIDs pkgs - dom (Map.empty :: memo)) < n"
      using card_pkgIDs_le [of pkgs] fuel by simp
    ultimately have "marshalPackage n conv pkgs pkg (h, Map.empty) \<noteq> None"
      by (rule marshalPackage_returns)
    moreover have "\<And>e. marshalPackage n conv pkgs pkg (h, Map.empty) \<noteq> Some (Inl e)"
      by (rule marshalPackage_no_error) (rule noerr)
    ultimately obtain r h1 m1 where
      mp: "marshalPackage n conv pkgs pkg (h, Map.empty) = Some (Inr (r, h1, m1))"
      by (metis not_Some_eq sum.exhaust prod_cases3)
    from marshalPackage_frame [OF mp] have e1: "extends h h1" by (simp add: extends_def)
    have root: "(case conv pkg of Inr (Some c) \<Rightarrow> r = Some (length h) \<and> length h < length h1 \<and>
            node_data (h1 ! length h) = node_data c
          | _ \<Rightarrow> r = None \<and> h1 = h)"
      by (rule marshalPackage_root [OF mp]) simp
    show ?thesis
    proof (cases "\<exists>c. conv pkg = Inr (Some c)")
      case True
      then obtain c where c: "conv pkg = Inr (Some c)" by blast
      with root have r: "r = Some (length h)" and l: "length h < length h1"
        and nd: "node_data (h1 ! length h) = node_data c" by auto
      from Cons.IH [OF sub, of "direct @ [Some (length h)]" h1] obtain new h' where
        i: "marshalRoots n conv pkgs parents es (direct @ [Some (length h)]) h1 =
              Some (Inr ((direct @ [Some (length h)]) @ new, h'))"
        and e2: "extends h1 h'" and f: "fresh_in h1 h' new"
        and nn: "nodes_at h' new = rootData conv parents es" by blast
      have "marshalRoots n conv pkgs parents (x # es) direct h =
              Some (Inr (direct @ (Some (length h) # new), h'))"
        using False mp r i by (auto simp: x)
      moreover have "extends h h'" using e1 e2 by (rule extends_trans)
      moreover have "fresh_in h h' (Some (length h) # new)"
        using f l e1 e2 by (auto simp: fresh_in_def extends_def)
      moreover have "nodes_at h' (Some (length h) # new) = rootData conv parents (x # es)"
        using nn nd e2 l False c by (simp add: nodes_at_def rootData_def x extends_def)
      ultimately show ?thesis by blast
    next
      case nc: False
      with root have r: "r = None" and hh: "h1 = h"
        by (auto split: sum.splits option.splits)
      from Cons.IH [OF sub, of direct h] obtain new h' where
        i: "marshalRoots n conv pkgs parents es direct h = Some (Inr (direct @ new, h'))"
        and e2: "extends h h'" and f: "fresh_in h h' new"
        and nn: "nodes_at h' new = rootData conv parents es" by blast
      have "marshalRoots n conv pkgs parents (x # es) direct h = Some (Inr (direct @ new, h'))"
        using False mp r hh i by (auto simp: x)
      moreover have "nodes_at h' new = rootData conv parents (x # es)"
        using nn nc False by (auto simp: rootData_def x split: sum.splits option.splits)
      ultimately show ?thesis using e2 f by blast
    qed
  qed
qed

lemma marshalRoots_returns:
  assumes fuel: "length pkgs < n"
  shows "set es \<subseteq> set pkgs \<Longrightarrow> marshalRoots n conv pkgs parents es direct h \<noteq> None"
proof (induction es arbitrary: direct h)
  case Nil
  then show ?case by simp
next
  case (Cons x es)
  obtain k pkg where x: "x = (k, pkg)" by (cases x)
  from Cons.prems have sub: "set es \<subseteq> set pkgs" and mem: "(k, pkg) \<in> set pkgs"
    by (auto simp: x)
  have "pkg \<in> snd ` set pkgs" using mem by force
  moreover have "card (pkgIDs pkgs - dom (Map.empty :: memo)) < n"
    using card_pkgIDs_le [of pkgs] fuel by simp
  ultimately have "marshalPackage n conv pkgs pkg (h, Map.empty) \<noteq> None"
    by (rule marshalPackage_returns)
  then show ?case using Cons.IH [OF sub] unfolding x
    by (auto split: option.splits sum.splits)
qed

lemma range_ok_set: "range_ok env m \<Longrightarrow> set (mapRange env m) = set m"
  unfolding range_ok_def by (rule mset_eq_setD)

lemma marshalPackages_returns:
  "range_ok env (packageMap env metadata result) \<Longrightarrow>
     marshalPackages conv env metadata result h \<noteq> None"
  unfolding marshalPackages_def Let_def
  by (rule marshalRoots_returns) (simp_all add: range_ok_set)


lemma marshalPackages_spec:
  assumes "\<And>p. \<not> isl (conv p)" and "range_ok env (packageMap env metadata result)"
  shows "\<exists>new h'. marshalPackages conv env metadata result h = Some (Inr (new, h')) \<and>
       extends h h' \<and> fresh_in h h' new \<and>
       nodes_at h' new = rootData conv (ParentDeps (res_Packages result))
                           (mapRange env (packageMap env metadata result))"
proof -
  have "set (mapRange env (packageMap env metadata result)) \<subseteq> set (packageMap env metadata result)"
    using assms(2) by (simp add: range_ok_set)
  from marshalRoots_spec [where direct = "[]", OF assms(1) _ this, of "Suc (length (packageMap env metadata result))"]
  show ?thesis unfolding marshalPackages_def Let_def by simp
qed

lemma pkgComponent_no_error [simp]: "\<not> isl (pkgComponent p)"
  by (simp add: pkgComponent_def split: prod.splits)

lemma length_set_children [simp]: "length (set_children a cs h) = length h"
  by (simp add: set_children_def)

lemma nth_set_children_other [simp]: "b \<noteq> a \<Longrightarrow> set_children a cs h ! b = h ! b"
  by (simp add: set_children_def)

lemma node_data_set_children [simp]: "node_data (set_children a cs h ! b) = node_data (h ! b)"
  by (cases "b = a"; cases "a < length h")
    (simp_all add: set_children_def node_data_def list_update_beyond)

lemma marshalResult_spec:
  assumes rng: "range_ok env (packageMap env metadata result)"
  shows "\<exists>new h'. marshalResult env metadata result h = Some (Inr (new, h')) \<and>
       extends h h' \<and> fresh_in h h' new \<and> nodes_at h' new = resultData env metadata result"
proof (cases "floating result")
  case True
  from marshalPackages_spec [where conv = pkgComponent and h = h, OF pkgComponent_no_error rng] obtain new h' where
    "marshalPackages pkgComponent env metadata result h = Some (Inr (new, h'))"
    "extends h h'" "fresh_in h h' new"
    "nodes_at h' new = rootData pkgComponent (ParentDeps (res_Packages result))
                           (mapRange env (packageMap env metadata result))" by blast
  with True show ?thesis
    by (simp add: marshalResult_def resultData_def floating_def)
next
  case nf: False
  show ?thesis
  proof (cases "res_Class result = ClassOSPkg \<or> res_Class result = ClassLangPkg")
    case True
    let ?rc = "resultComponent result (md_OS metadata)"
    from marshalPackages_spec [where conv = pkgComponent and h = "h @ [?rc]", OF pkgComponent_no_error rng] obtain new h2 where
      mp: "marshalPackages pkgComponent env metadata result (h @ [?rc]) = Some (Inr (new, h2))"
      and e: "extends (h @ [?rc]) h2" by blast
    have "marshalResult env metadata result h =
        Some (Inr ([Some (length h)], set_children (length h) new h2))"
      using nf True mp unfolding marshalResult_def floating_def alloc_def by auto
    moreover have "extends h (set_children (length h) new h2)"
      using e by (auto simp: extends_def nth_append)
    moreover have "fresh_in h (set_children (length h) new h2) [Some (length h)]"
      using e by (simp add: fresh_in_def extends_def)
    moreover have "nodes_at (set_children (length h) new h2) [Some (length h)] =
        resultData env metadata result"
      using e nf True by (auto simp: nodes_at_def resultData_def extends_def)
    ultimately show ?thesis by blast
  next
    case False
    with nf show ?thesis
      by (simp add: marshalResult_def resultData_def floating_def fresh_in_def nodes_at_def)
  qed
qed

lemma nodes_at_cong:
  "(\<And>p. p \<in> set ps \<Longrightarrow> node_data (h ! the p) = node_data (g ! the p)) \<Longrightarrow>
     nodes_at h ps = nodes_at g ps"
  by (simp add: nodes_at_def)

lemma nodes_at_append: "nodes_at h (xs @ ys) = nodes_at h xs @ nodes_at h ys"
  by (simp add: nodes_at_def)

lemma marshalResults_spec:
  assumes root: "root < length h"
  shows "\<forall>res\<in>set rs. range_ok env (packageMap env metadata res) \<Longrightarrow>
    \<exists>new h'. marshalResults env metadata root rs h = Some (Inr h') \<and>
       length h \<le> length h' \<and> (\<forall>b<length h. b \<noteq> root \<longrightarrow> h' ! b = h ! b) \<and>
       node_data (h' ! root) = node_data (h ! root) \<and>
       c_Components (h' ! root) = c_Components (h ! root) @ new \<and>
       fresh_in h h' new \<and> nodes_at h' new = concat (map (resultData env metadata) rs)"
  using root
proof (induction rs arbitrary: h)
  case Nil
  then show ?case by (simp add: fresh_in_def nodes_at_def)
next
  case (Cons res rs)
  from Cons.prems have rng: "range_ok env (packageMap env metadata res)"
    and rngs: "\<forall>res\<in>set rs. range_ok env (packageMap env metadata res)" by auto
  from marshalResult_spec [OF rng, where h = h] obtain comps h1 where
    mr: "marshalResult env metadata res h = Some (Inr (comps, h1))"
    and e: "extends h h1" and f: "fresh_in h h1 comps"
    and n: "nodes_at h1 comps = resultData env metadata res" by blast
  let ?h1 = "append_children root comps h1"
  have r1: "root < length ?h1" using Cons.prems(2) e by (simp add: extends_def)
  from Cons.IH [OF rngs r1] obtain new h' where
    ms: "marshalResults env metadata root rs ?h1 = Some (Inr h')"
    and l: "length ?h1 \<le> length h'"
    and fr: "\<And>b. b < length ?h1 \<Longrightarrow> b \<noteq> root \<Longrightarrow> h' ! b = ?h1 ! b"
    and nd: "node_data (h' ! root) = node_data (?h1 ! root)"
    and ch: "c_Components (h' ! root) = c_Components (?h1 ! root) @ new"
    and f': "fresh_in ?h1 h' new"
    and n': "nodes_at h' new = concat (map (resultData env metadata) rs)" by auto
  have rl: "root < length h1" using Cons.prems(2) e by (simp add: extends_def)
  have hr: "h1 ! root = h ! root" using Cons.prems(2) e by (simp add: extends_def)
  have "marshalResults env metadata root (res # rs) h = Some (Inr h')"
    using mr ms by simp
  moreover have "length h \<le> length h'" using l e by (simp add: extends_def)
  moreover have "\<forall>b<length h. b \<noteq> root \<longrightarrow> h' ! b = h ! b"
    using fr e by (auto simp: extends_def)
  moreover have "node_data (h' ! root) = node_data (h ! root)"
    using nd hr by simp
  moreover have "c_Components (h' ! root) = c_Components (h ! root) @ (comps @ new)"
    using ch rl hr by simp
  moreover have "fresh_in h h' (comps @ new)"
    using f f' l e by (fastforce simp: fresh_in_def extends_def)
  moreover have "nodes_at h' (comps @ new) = concat (map (resultData env metadata) (res # rs))"
  proof -
    have "nodes_at h' comps = nodes_at h1 comps"
    proof (rule nodes_at_cong)
      fix p assume "p \<in> set comps"
      with f obtain a where a: "p = Some a" "length h \<le> a" "a < length h1"
        by (auto simp: fresh_in_def)
      with Cons.prems(2) have "a \<noteq> root" by simp
      with a fr [of a] show "node_data (h' ! the p) = node_data (h1 ! the p)" by simp
    qed
    then show ?thesis using n n' by (simp add: nodes_at_append)
  qed
  ultimately show ?case by blast
qed

section \<open>Facts about the conversion, the parent map and the root\<close>

lemma ParentDeps_empty_iff:
  "ParentDeps pkgs d = [] \<longleftrightarrow> \<not> (\<exists>q \<in> set pkgs. d \<in> set (DependsOn q))"
  by (auto simp: ParentDeps_def filter_empty_conv)

lemma pkgComponent_Some: "\<exists>c. pkgComponent p = Inr (Some c)"
  by (cases "pkgIdentity p") (simp add: pkgComponent_def)

lemma pkgComponent_children: "pkgComponent p = Inr (Some c) \<Longrightarrow> c_Components c = []"
  by (auto simp: pkgComponent_def split: prod.splits)

lemma node_data_id: "c_Components c = [] \<Longrightarrow> node_data c = c"
  by (simp add: node_data_def)

lemma rootData_pkgComponent:
  "map (\<lambda>c. Inr (Some c)) (rootData pkgComponent (ParentDeps ps) es) =
     map (\<lambda>e. pkgComponent (snd e))
       (filter (\<lambda>e. \<not> (Indirect (pkg_Package (snd e)) \<and>
                         (\<exists>q \<in> set ps. ID (pkg_Package (snd e)) \<in> set (DependsOn q)))) es)"
proof (induction es)
  case Nil
  then show ?case by (simp add: rootData_def)
next
  case (Cons e es)
  obtain k pkg where e: "e = (k, pkg)" by (cases e)
  obtain c where c: "pkgComponent pkg = Inr (Some c)"
    using pkgComponent_Some by blast
  have nd: "node_data c = c" using c by (simp add: pkgComponent_children node_data_id)
  have "rootData pkgComponent (ParentDeps ps) (e # es) =
     (if Indirect (pkg_Package pkg) \<and> ParentDeps ps (ID (pkg_Package pkg)) \<noteq> [] then []
      else [c]) @ rootData pkgComponent (ParentDeps ps) es"
    by (simp add: rootData_def e c nd)
  then show ?case using Cons.IH c
    by (simp add: e ParentDeps_empty_iff)
qed


lemma rootComponent_error_iff: "isl (rootComponent env r) = identifier_fails env r"
  by (auto simp: rootComponent_def identifier_fails_def toCoreComponent_def Let_def ftypes_names
      split: sum.splits option.splits)

lemma rootComponent_children: "rootComponent env r = Inr c \<Longrightarrow> c_Components c = []"
  by (auto simp: rootComponent_def toCoreComponent_def rootProperties_def emptyComponent_def Let_def
      split: sum.splits option.splits if_splits)

lemma MarshalReport_cases:
  assumes "\<forall>res\<in>set (Results r). range_ok env (packageMap env (rep_Metadata r) res)"
  shows "(case rootComponent env r of
            Inl e \<Rightarrow> MarshalReport env r = Some (Inl e)
          | Inr rootc \<Rightarrow> \<exists>h. MarshalReport env r = Some (Inr (0, h)) \<and> 0 < length h \<and>
               node_data (h ! 0) = node_data rootc \<and>
               fresh_in [rootc] h (c_Components (h ! 0)) \<and>
               nodes_at h (c_Components (h ! 0)) =
                 concat (map (resultData env (rep_Metadata r)) (Results r)))"
proof (cases "rootComponent env r")
  case (Inl e)
  then show ?thesis by (simp add: MarshalReport_def)
next
  case (Inr rootc)
  have "0 < length [rootc]" by simp
  from marshalResults_spec [OF this assms] obtain new h' where
    "marshalResults env (rep_Metadata r) 0 (Results r) [rootc] = Some (Inr h')"
    "length [rootc] \<le> length h'" "node_data (h' ! 0) = node_data ([rootc] ! 0)"
    "c_Components (h' ! 0) = c_Components ([rootc] ! 0) @ new"
    "fresh_in [rootc] h' new"
    "nodes_at h' new = concat (map (resultData env (rep_Metadata r)) (Results r))" by blast
  then show ?thesis using Inr rootComponent_children [OF Inr]
    by (auto simp: MarshalReport_def alloc_def)
qed


section \<open>One build of a root shares its components\<close>

lemma resolved_Nil [simp]: "resolved pkgs [] = []"
  by (simp add: resolved_def map_filter_simps)

lemma resolved_Cons:
  "resolved pkgs (d # ds) =
     (case map_of pkgs d of None \<Rightarrow> resolved pkgs ds | Some cp \<Rightarrow> cp # resolved pkgs ds)"
  by (simp add: resolved_def map_filter_simps split: option.splits)

lemma built_mono:
  assumes "built conv pkgs h m b" and "m \<subseteq>\<^sub>m m'" and "h' ! b = h ! b"
  shows "built conv pkgs h' m' b"
proof -
  from assms(1) obtain q :: Package where qm: "q \<in> snd ` set pkgs"
    and qc: "conv q = Inr (Some (node_data (h ! b)))"
    and q: "m (ID (pkg_Package q)) = Some b"
    and ch: "c_Components (h ! b) =
            map (\<lambda>cp. m (ID (pkg_Package cp))) (resolved pkgs (DependsOn (pkg_Package q)))"
    and nn: "None \<notin> set (c_Components (h ! b))" unfolding built_def by blast
  have q': "m' (ID (pkg_Package q)) = Some b" using q assms(2) by (auto simp: map_le_def dom_def)
  have "map (\<lambda>cp. m (ID (pkg_Package cp))) (resolved pkgs (DependsOn (pkg_Package q))) =
     map (\<lambda>cp. m' (ID (pkg_Package cp))) (resolved pkgs (DependsOn (pkg_Package q)))"
  proof (rule map_cong [OF refl])
    fix cp assume "cp \<in> set (resolved pkgs (DependsOn (pkg_Package q)))"
    then have "m (ID (pkg_Package cp)) \<in> set (c_Components (h ! b))" using ch by simp
    with nn have "m (ID (pkg_Package cp)) \<noteq> None" by metis
    then show "m (ID (pkg_Package cp)) = m' (ID (pkg_Package cp))"
      using assms(2) by (auto simp: map_le_def dom_def)
  qed
  with ch have ch': "c_Components (h' ! b) =
      map (\<lambda>cp. m' (ID (pkg_Package cp))) (resolved pkgs (DependsOn (pkg_Package q)))"
    using assms(3) by simp
  have qc': "conv q = Inr (Some (node_data (h' ! b)))" using qc assms(3) by simp
  have nn': "None \<notin> set (c_Components (h' ! b))" using nn assms(3) by simp
  show ?thesis unfolding built_def using qm qc' q' ch' nn' by blast
qed

lemma marshalDeps_shares:
  assumes recur: "\<And>cp h m r h' m'. cp \<in> snd ` set pkgs \<Longrightarrow>
     recur cp (h, m) = Some (Inr (r, h', m')) \<Longrightarrow> post_pkg conv pkgs cp h m r h' m'"
  shows "marshalDeps recur pkgs a deps (h, m) = Some (Inr (h', m')) \<Longrightarrow> a < length h \<Longrightarrow>
     m \<subseteq>\<^sub>m m' \<and> length h \<le> length h' \<and> (\<forall>b<length h. b \<noteq> a \<longrightarrow> h' ! b = h ! b) \<and>
     node_data (h' ! a) = node_data (h ! a) \<and>
     c_Components (h' ! a) =
       c_Components (h ! a) @ map (\<lambda>cp. m' (ID (pkg_Package cp))) (resolved pkgs deps) \<and>
     None \<notin> set (map (\<lambda>cp. m' (ID (pkg_Package cp))) (resolved pkgs deps)) \<and>
     (\<forall>i b. m' i = Some b \<longrightarrow> m i = Some b \<or> (length h \<le> b \<and> b < length h')) \<and>
     (\<forall>b. length h \<le> b \<and> b < length h' \<longrightarrow> built conv pkgs h' m' b)"
proof (induction deps arbitrary: h m)
  case Nil
  then show ?case by auto
next
  case (Cons dep deps)
  show ?case
  proof (cases "map_of pkgs dep")
    case None
    with Cons.prems have "marshalDeps recur pkgs a deps (h, m) = Some (Inr (h', m'))" by simp
    from Cons.IH [OF this Cons.prems(2)] None show ?thesis by (simp add: resolved_Cons)
  next
    case (Some cp)
    then have cpm: "cp \<in> snd ` set pkgs" by (force dest: map_of_SomeD)
    from Some Cons.prems obtain child h1 m1 where
      r: "recur cp (h, m) = Some (Inr (child, h1, m1))" and
      d: "marshalDeps recur pkgs a deps (append_children a [child] h1, m1) = Some (Inr (h', m'))"
      by (auto split: option.splits sum.splits)
    let ?h1 = "append_children a [child] h1"
    note P = recur [OF cpm r]
    have r1: "m \<subseteq>\<^sub>m m1" using P unfolding post_pkg_def by blast
    have r2: "length h \<le> length h1" using P unfolding post_pkg_def by blast
    have r3: "\<And>b. b < length h \<Longrightarrow> h1 ! b = h ! b" using P unfolding post_pkg_def by blast
    have r5: "\<And>i b. m1 i = Some b \<Longrightarrow> m i = Some b \<or> (length h \<le> b \<and> b < length h1)"
      using P unfolding post_pkg_def by blast
    have r6: "\<And>b. length h \<le> b \<Longrightarrow> b < length h1 \<Longrightarrow> built conv pkgs h1 m1 b"
      using P unfolding post_pkg_def by blast
    from P obtain c where c: "child = Some c" "m1 (ID (pkg_Package cp)) = Some c"
      unfolding post_pkg_def by blast
    have a1: "a < length ?h1" using Cons.prems(2) r2 by simp
    note I = Cons.IH [OF d a1]
    have i1: "m1 \<subseteq>\<^sub>m m'" using I by blast
    have i2: "length h1 \<le> length h'" using I by simp
    have i3: "\<And>b. b < length h1 \<Longrightarrow> b \<noteq> a \<Longrightarrow> h' ! b = h1 ! b" using I by simp
    have i3': "node_data (h' ! a) = node_data (?h1 ! a)" using I by blast
    have i4: "c_Components (h' ! a) =
         c_Components (?h1 ! a) @ map (\<lambda>cp. m' (ID (pkg_Package cp))) (resolved pkgs deps)"
      using I by blast
    have i4': "None \<notin> set (map (\<lambda>cp. m' (ID (pkg_Package cp))) (resolved pkgs deps))"
      using I by blast
    have i5: "\<And>i b. m' i = Some b \<Longrightarrow> m1 i = Some b \<or> (length h1 \<le> b \<and> b < length h')"
      using I by simp
    have i6: "\<And>b. length h1 \<le> b \<Longrightarrow> b < length h' \<Longrightarrow> built conv pkgs h' m' b"
      using I by simp
    have mc: "m' (ID (pkg_Package cp)) = Some c" using c(2) i1 by (auto simp: map_le_def dom_def)
    have al: "a < length h1" using Cons.prems(2) r2 by simp
    have "m \<subseteq>\<^sub>m m'" using r1 i1 by (rule map_le_trans)
    moreover have "length h \<le> length h'" using r2 i2 by simp
    moreover have "\<forall>b<length h. b \<noteq> a \<longrightarrow> h' ! b = h ! b" using r2 r3 i3 by auto
    moreover have "node_data (h' ! a) = node_data (h ! a)"
      using i3' r3 [OF Cons.prems(2)] by simp
    moreover have "c_Components (h' ! a) =
       c_Components (h ! a) @ map (\<lambda>cp. m' (ID (pkg_Package cp))) (resolved pkgs (dep # deps))"
      using i4 al c(1) mc Some r3 [OF Cons.prems(2)] by (simp add: resolved_Cons)
    moreover have "None \<notin> set (map (\<lambda>cp. m' (ID (pkg_Package cp))) (resolved pkgs (dep # deps)))"
      using i4' mc Some by (simp add: resolved_Cons)
    moreover have "\<forall>i b. m' i = Some b \<longrightarrow> m i = Some b \<or> (length h \<le> b \<and> b < length h')"
    proof (intro allI impI)
      fix i b assume "m' i = Some b"
      from i5 [OF this] show "m i = Some b \<or> (length h \<le> b \<and> b < length h')"
      proof
        assume "m1 i = Some b"
        from r5 [OF this] show ?thesis using i2 by auto
      next
        assume "length h1 \<le> b \<and> b < length h'"
        then show ?thesis using r2 by auto
      qed
    qed
    moreover have "\<forall>b. length h \<le> b \<and> b < length h' \<longrightarrow> built conv pkgs h' m' b"
    proof (intro allI impI)
      fix b assume b: "length h \<le> b \<and> b < length h'"
      show "built conv pkgs h' m' b"
      proof (cases "b < length h1")
        case True
        have "b \<noteq> a" using b Cons.prems(2) by simp
        then have "h' ! b = h1 ! b" using i3 True by simp
        moreover have "built conv pkgs h1 m1 b" using r6 b True by simp
        ultimately show ?thesis using i1 by (auto intro: built_mono)
      next
        case False
        with i6 [of b] b show ?thesis by simp
      qed
    qed
    ultimately show ?thesis by blast
  qed
qed

lemma marshalPackage_shares:
  assumes conv: "\<And>p. \<exists>c. conv p = Inr (Some c) \<and> c_Components c = []"
  shows "pkg \<in> snd ` set pkgs \<Longrightarrow>
     marshalPackage n conv pkgs pkg (h, m) = Some (Inr (r, h', m')) \<Longrightarrow>
     post_pkg conv pkgs pkg h m r h' m'"
proof (induction n arbitrary: pkg h m r h' m')
  case 0
  then show ?case by simp
next
  case (Suc n)
  show ?case
  proof (cases "m (ID (pkg_Package pkg))")
    case (Some c)
    with Suc.prems have "r = Some c" "h' = h" "m' = m" by auto
    then show ?thesis using Some by (auto simp: post_pkg_def)
  next
    case None
    from conv obtain c where c: "conv pkg = Inr (Some c)" and cc: "c_Components c = []" by blast
    let ?a = "length h"
    let ?m0 = "m(ID (pkg_Package pkg) \<mapsto> ?a)"
    from None c Suc.prems(2) have
      d: "marshalDeps (marshalPackage n conv pkgs) pkgs ?a (DependsOn (pkg_Package pkg))
            (h @ [c], ?m0) = Some (Inr (h', m'))"
      and r: "r = Some ?a"
      by (auto split: option.splits sum.splits)
    have a: "?a < length (h @ [c])" by simp
    note X = marshalDeps_shares [where recur = "marshalPackage n conv pkgs" and conv = conv,
        OF Suc.IH d a]
    have d1: "?m0 \<subseteq>\<^sub>m m'" using X by blast
    have d2: "length (h @ [c]) \<le> length h'" using X by blast
    have d3: "\<And>b. b < length (h @ [c]) \<Longrightarrow> b \<noteq> ?a \<Longrightarrow> h' ! b = (h @ [c]) ! b"
      using X by blast
    have d3': "node_data (h' ! ?a) = node_data ((h @ [c]) ! ?a)" using X by blast
    have d4: "c_Components (h' ! ?a) = c_Components ((h @ [c]) ! ?a) @
          map (\<lambda>cp. m' (ID (pkg_Package cp))) (resolved pkgs (DependsOn (pkg_Package pkg)))"
      using X by blast
    have d4': "None \<notin> set (map (\<lambda>cp. m' (ID (pkg_Package cp)))
          (resolved pkgs (DependsOn (pkg_Package pkg))))"
      using X by blast
    have d5: "\<And>i b. m' i = Some b \<Longrightarrow> ?m0 i = Some b \<or> (length (h @ [c]) \<le> b \<and> b < length h')"
      using X by blast
    have d6: "\<And>b. length (h @ [c]) \<le> b \<Longrightarrow> b < length h' \<Longrightarrow> built conv pkgs h' m' b"
      using X by blast
    have ma: "m' (ID (pkg_Package pkg)) = Some ?a" using d1 by (auto simp: map_le_def dom_def)
    have nd: "conv pkg = Inr (Some (node_data (h' ! ?a)))"
      using d3' c cc by (simp add: node_data_def)
    have ch: "c_Components (h' ! ?a) =
      map (\<lambda>cp. m' (ID (pkg_Package cp))) (resolved pkgs (DependsOn (pkg_Package pkg)))"
      using d4 cc by simp
    have "m \<subseteq>\<^sub>m ?m0" using None by (auto simp: map_le_def)
    then have "m \<subseteq>\<^sub>m m'" using d1 by (rule map_le_trans)
    moreover have "length h \<le> length h'" using d2 by simp
    moreover have "\<forall>b<length h. h' ! b = h ! b" using d3 by (simp add: nth_append)
    moreover have "\<exists>a. r = Some a \<and> m' (ID (pkg_Package pkg)) = Some a" using r ma by simp
    moreover have "m (ID (pkg_Package pkg)) = None \<longrightarrow>
         conv pkg = Inr (Some (node_data (h' ! length h))) \<and>
         c_Components (h' ! length h) =
           map (\<lambda>cp. m' (ID (pkg_Package cp))) (resolved pkgs (DependsOn (pkg_Package pkg)))"
      using nd ch by simp
    moreover have "\<forall>i b. m' i = Some b \<longrightarrow> m i = Some b \<or> (length h \<le> b \<and> b < length h')"
    proof (intro allI impI)
      fix i b assume "m' i = Some b"
      from d5 [OF this] d2 show "m i = Some b \<or> (length h \<le> b \<and> b < length h')"
        by (auto split: if_splits)
    qed
    moreover have "\<forall>b. length h \<le> b \<and> b < length h' \<longrightarrow> built conv pkgs h' m' b"
    proof (intro allI impI)
      fix b assume b: "length h \<le> b \<and> b < length h'"
      show "built conv pkgs h' m' b"
      proof (cases "b = ?a")
        case True
        have "None \<notin> set (c_Components (h' ! ?a))" using ch d4' by simp
        with Suc.prems(1) nd ma ch show ?thesis unfolding built_def True by blast
      next
        case False
        with b d6 [of b] show ?thesis by simp
      qed
    qed
    ultimately show ?thesis unfolding post_pkg_def by blast
  qed
qed


lemma resolved_member:
  "k \<in> set deps \<Longrightarrow> map_of pkgs k = Some p \<Longrightarrow> p \<in> set (resolved pkgs deps)"
  by (induction deps) (auto simp: resolved_Cons split: option.splits)

text \<open>
  What a shared build says of one of its components: it is converted from a package of
  the package map, and for each dependency of that package present in the map, the one
  component the memo map has for the dependency's \<open>ID\<close> lies in the build and is among
  the children.  Two components of a build whose packages depend on the same package so
  point at the same component.
\<close>

lemma shared_build_one_instance:
  assumes sb: "shared_build conv pkgs h m lo hi" and a: "lo \<le> a" "a < hi"
  shows "\<exists>q::Package. q \<in> snd ` set pkgs \<and> conv q = Inr (Some (node_data (h ! a))) \<and>
     m (ID (pkg_Package q)) = Some a \<and>
     (\<forall>k p. k \<in> set (DependsOn (pkg_Package q)) \<and> map_of pkgs k = Some p \<longrightarrow>
        (\<exists>c. m (ID (pkg_Package p)) = Some c \<and> lo \<le> c \<and> c < hi \<and>
             Some c \<in> set (c_Components (h ! a))))"
proof -
  from sb a have "built conv pkgs h m a" unfolding shared_build_def by blast
  then obtain q :: Package where qm: "q \<in> snd ` set pkgs"
    and qc: "conv q = Inr (Some (node_data (h ! a)))"
    and q: "m (ID (pkg_Package q)) = Some a"
    and ch: "c_Components (h ! a) =
            map (\<lambda>cp. m (ID (pkg_Package cp))) (resolved pkgs (DependsOn (pkg_Package q)))"
    and nn: "None \<notin> set (c_Components (h ! a))" unfolding built_def by blast
  have "\<exists>c. m (ID (pkg_Package p)) = Some c \<and> lo \<le> c \<and> c < hi \<and>
             Some c \<in> set (c_Components (h ! a))"
    if "k \<in> set (DependsOn (pkg_Package q))" and "map_of pkgs k = Some p" for k p
  proof -
    from that have "p \<in> set (resolved pkgs (DependsOn (pkg_Package q)))"
      by (rule resolved_member)
    then have i: "m (ID (pkg_Package p)) \<in> set (c_Components (h ! a))" using ch by simp
    with nn obtain c where c: "m (ID (pkg_Package p)) = Some c" by (cases "m (ID (pkg_Package p))") auto
    then have "lo \<le> c \<and> c < hi" using sb unfolding shared_build_def by blast
    with c i show ?thesis by simp
  qed
  with qm qc q show ?thesis by blast
qed

lemma shared_build_extends:
  assumes "shared_build conv pkgs h m lo hi" and "extends h h'" and "hi \<le> length h"
  shows "shared_build conv pkgs h' m lo hi"
proof -
  have A: "\<forall>i b. m i = Some b \<longrightarrow> lo \<le> b \<and> b < hi"
    using assms(1) unfolding shared_build_def by blast
  have B: "\<forall>b. lo \<le> b \<and> b < hi \<longrightarrow> built conv pkgs h' m b"
  proof (intro allI impI)
    fix b assume b: "lo \<le> b \<and> b < hi"
    then have "built conv pkgs h m b" using assms(1) unfolding shared_build_def by blast
    moreover have "h' ! b = h ! b" using b assms(2,3) by (simp add: extends_def)
    ultimately show "built conv pkgs h' m b" by (rule built_mono [OF _ map_le_refl])
  qed
  show ?thesis unfolding shared_build_def using A B by blast
qed

lemma extends_take: "extends h h' \<Longrightarrow> take (length h) h' = h"
  by (rule nth_equalityI) (simp_all add: extends_def)

lemma marshalRoots_segmented:
  assumes conv: "\<And>p. \<exists>c. conv p = Inr (Some c) \<and> c_Components c = []"
    and fuel: "length pkgs < n"
  shows "set es \<subseteq> set pkgs \<Longrightarrow>
    marshalRoots n conv pkgs parents es direct h = Some (Inr (roots, h')) \<Longrightarrow>
    \<exists>new. roots = direct @ new \<and> extends h h' \<and>
       length new = length (candidates parents es) \<and>
       segmented n conv pkgs h' (zip new (candidates parents es)) (length h) (length h')"
proof (induction es arbitrary: direct h)
  case Nil
  then show ?case by (simp add: candidates_def)
next
  case (Cons x es)
  obtain k pkg where x: "x = (k, pkg)" by (cases x)
  from Cons.prems have sub: "set es \<subseteq> set pkgs" and mem: "pkg \<in> snd ` set pkgs"
    by (auto simp: x intro: rev_image_eqI)
  show ?case
  proof (cases "Indirect (pkg_Package pkg) \<and> parents (ID (pkg_Package pkg)) \<noteq> []")
    case True
    with Cons.prems(2) have "marshalRoots n conv pkgs parents es direct h = Some (Inr (roots, h'))"
      by (simp add: x)
    from Cons.IH [OF sub this] True show ?thesis by (simp add: candidates_def x)
  next
    case False
    have cands: "candidates parents (x # es) = pkg # candidates parents es"
      using False by (simp add: candidates_def x)
    have ne: "\<And>p. \<not> isl (conv p)" using conv by (metis sum.disc(2))
    have "\<And>e. marshalPackage n conv pkgs pkg (h, Map.empty) \<noteq> Some (Inl e)"
      by (rule marshalPackage_no_error) (rule ne)
    with Cons.prems(2) False obtain r h1 m1 where
      mp: "marshalPackage n conv pkgs pkg (h, Map.empty) = Some (Inr (r, h1, m1))"
      by (auto simp: x split: option.splits sum.splits)
    from conv obtain c where c: "conv pkg = Inr (Some c)" by blast
    have "(case conv pkg of Inr (Some c) \<Rightarrow> r = Some (length h) \<and> length h < length h1 \<and>
            node_data (h1 ! length h) = node_data c
          | _ \<Rightarrow> r = None \<and> h1 = h)"
      by (rule marshalPackage_root [OF mp]) simp
    with c have r: "r = Some (length h)" and l: "length h < length h1" by auto
    from marshalPackage_frame [OF mp] have e1: "extends h h1" by (simp add: extends_def)
    have pp: "post_pkg conv pkgs pkg h Map.empty r h1 m1"
      using conv mem mp by (rule marshalPackage_shares)
    then have sb: "shared_build conv pkgs h1 m1 (length h) (length h1)"
      by (simp add: post_pkg_def shared_build_def)
    from pp have rt: "conv pkg = Inr (Some (node_data (h1 ! length h)))"
      "c_Components (h1 ! length h) =
         map (\<lambda>cp. m1 (ID (pkg_Package cp))) (resolved pkgs (DependsOn (pkg_Package pkg)))"
      by (simp_all add: post_pkg_def)
    from Cons.prems(2) False mp r have
      "marshalRoots n conv pkgs parents es (direct @ [Some (length h)]) h1 = Some (Inr (roots, h'))"
      by (auto simp: x)
    from Cons.IH [OF sub this] obtain new where
      n1: "roots = (direct @ [Some (length h)]) @ new" and e2: "extends h1 h'"
      and ln: "length new = length (candidates parents es)"
      and sg: "segmented n conv pkgs h' (zip new (candidates parents es)) (length h1) (length h')"
      by blast
    have e: "extends h h'" using e1 e2 by (rule extends_trans)
    have sb': "shared_build conv pkgs h' m1 (length h) (length h1)"
      using sb e2 by (rule shared_build_extends) simp
    have le: "length h1 \<le> length h'" using e2 by (simp add: extends_def)
    have mp': "marshalPackage n conv pkgs pkg (take (length h) h', Map.empty) =
        Some (Inr (Some (length h), take (length h1) h', m1))"
      using mp r by (simp add: extends_take [OF e] extends_take [OF e2])
    have "h' ! length h = h1 ! length h" using e2 l by (simp add: extends_def)
    with rt have rt': "conv pkg = Inr (Some (node_data (h' ! length h)))"
      "c_Components (h' ! length h) =
         map (\<lambda>cp. m1 (ID (pkg_Package cp))) (resolved pkgs (DependsOn (pkg_Package pkg)))"
      by simp_all
    have "segmented n conv pkgs h' ((Some (length h), pkg) # zip new (candidates parents es))
        (length h) (length h')"
      using sg l le mp' sb' rt' by auto
    then have "segmented n conv pkgs h' (zip (Some (length h) # new) (candidates parents (x # es)))
        (length h) (length h')"
      by (simp add: cands)
    moreover have "roots = direct @ (Some (length h) # new)" using n1 by simp
    moreover have "length (Some (length h) # new) = length (candidates parents (x # es))"
      using ln by (simp add: cands)
    ultimately show ?thesis using e by blast
  qed
qed

section \<open>The graph does not depend on where it is built\<close>

lemma mv_bisim:
  assumes "\<And>x. x \<in> S \<Longrightarrow> node_data (H' ! f x) = node_data (H ! x) \<and>
      c_Components (H' ! f x) = map (map_option f) (c_Components (H ! x)) \<and>
      (\<forall>c \<in> set (c_Components (H ! x)). \<exists>y. c = Some y \<and> y \<in> S)"
  shows "x \<in> S \<Longrightarrow> mv d H' (Some (f x)) = mv d H (Some x)"
proof (induction d arbitrary: x)
  case 0
  then show ?case by simp
next
  case (Suc d)
  from assms [OF Suc.prems] have nd: "node_data (H' ! f x) = node_data (H ! x)"
    and ch: "c_Components (H' ! f x) = map (map_option f) (c_Components (H ! x))"
    and cl: "\<And>c. c \<in> set (c_Components (H ! x)) \<Longrightarrow> \<exists>y. c = Some y \<and> y \<in> S" by auto
  have "map (mv d H') (map (map_option f) (c_Components (H ! x))) =
        map (mv d H) (c_Components (H ! x))"
  proof (simp only: map_map, rule map_cong [OF refl])
    fix c assume "c \<in> set (c_Components (H ! x))"
    from cl [OF this] obtain y where y: "c = Some y" "y \<in> S" by blast
    then show "(mv d H' \<circ> map_option f) c = mv d H c" using Suc.IH [of y] by simp
  qed
  then have "image_mset (mv d H') (mset (c_Components (H' ! f x))) =
     image_mset (mv d H) (mset (c_Components (H ! x)))"
    unfolding ch by (metis mset_map)
  with nd show ?case by simp
qed

lemma mv_frame:
  assumes "closed_in H lo hi" and "\<And>x. lo \<le> x \<Longrightarrow> x < hi \<Longrightarrow> H' ! x = H ! x"
    and "lo \<le> x" "x < hi"
  shows "mv d H' (Some x) = mv d H (Some x)"
proof -
  have "x \<in> {lo..<hi}" using assms(3,4) by simp
  then have "mv d H' (Some (id x)) = mv d H (Some x)"
  proof (rule mv_bisim [where S = "{lo..<hi}" and f = id, rotated])
    fix y assume "y \<in> {lo..<hi}"
    then show "node_data (H' ! id y) = node_data (H ! y) \<and>
      c_Components (H' ! id y) = map (map_option id) (c_Components (H ! y)) \<and>
      (\<forall>c \<in> set (c_Components (H ! y)). \<exists>z. c = Some z \<and> z \<in> {lo..<hi})"
      using assms(1,2) by (auto simp: closed_in_def option.map_id0)
  qed
  then show ?thesis by simp
qed

lemma lift_childless: "c_Components c = [] \<Longrightarrow> lift k c = c"
  by (simp add: lift_def)

lemma node_data_lift [simp]: "node_data (lift k c) = node_data c"
  by (simp add: lift_def node_data_def)

lemma children_lift [simp]:
  "c_Components (lift k c) = map (map_option (\<lambda>x. x + k)) (c_Components c)"
  by (simp add: lift_def)

lemma lift_append_child:
  "lift k (c\<lparr>c_Components := c_Components c @ [child]\<rparr>) =
     (lift k c)\<lparr>c_Components := c_Components (lift k c) @ [map_option (\<lambda>x. x + k) child]\<rparr>"
  by (simp add: lift_def)

lemma append_children_reloc:
  assumes "a < length g"
  shows "append_children (a + length h0) [map_option (\<lambda>x. x + length h0) child]
           (h0 @ map (lift (length h0)) g) =
         h0 @ map (lift (length h0)) (append_children a [child] g)"
  using assms
  by (simp add: append_children_def list_update_append nth_append map_update lift_append_child)

lemma reloc_memo_lookup:
  "(map_option f \<circ> m) i = map_option f (m i)"
  by simp

lemma reloc_memo_upd:
  "(map_option f \<circ> m)(i \<mapsto> f a) = map_option f \<circ> (m(i \<mapsto> a))"
  by (rule ext) simp

lemma marshalDeps_reloc:
  assumes recur: "\<And>cp st. recur2 cp (reloc_state h0 st) = reloc_res h0 (recur1 cp st)"
    and grow: "\<And>cp g m r g' m'. recur1 cp (g, m) = Some (Inr (r, g', m')) \<Longrightarrow> length g \<le> length g'"
  shows "a < length g \<Longrightarrow>
     marshalDeps recur2 pkgs (a + length h0) deps (reloc_state h0 (g, m)) =
     reloc_deps h0 (marshalDeps recur1 pkgs a deps (g, m))"
proof (induction deps arbitrary: g m)
  case Nil
  then show ?case by (simp add: reloc_deps_def)
next
  case (Cons dep deps)
  show ?case
  proof (cases "map_of pkgs dep")
    case None
    then show ?thesis using Cons.IH [OF Cons.prems] by simp
  next
    case (Some cp)
    show ?thesis
    proof (cases "recur1 cp (g, m)")
      case None
      with Some recur [of cp "(g, m)"] show ?thesis
        by (simp add: reloc_res_def reloc_deps_def)
    next
      case res: (Some res)
      show ?thesis
      proof (cases res)
        case (Inl e)
        with Some res recur [of cp "(g, m)"] show ?thesis
          by (simp add: reloc_res_def reloc_deps_def)
      next
        case (Inr t)
        obtain child g1 m1 where t: "t = (child, g1, m1)" by (cases t)
        have r1: "recur1 cp (g, m) = Some (Inr (child, g1, m1))" using res Inr t by simp
        have a1: "a < length g1" using grow [OF r1] Cons.prems by simp
        have r2: "recur2 cp (reloc_state h0 (g, m)) =
           Some (Inr (map_option (\<lambda>x. x + length h0) child, reloc_state h0 (g1, m1)))"
          using recur [of cp "(g, m)"] r1 by (simp add: reloc_res_def)
        have "marshalDeps recur2 pkgs (a + length h0) (dep # deps) (reloc_state h0 (g, m)) =
           marshalDeps recur2 pkgs (a + length h0) deps
             (append_children (a + length h0) [map_option (\<lambda>x. x + length h0) child]
                (fst (reloc_state h0 (g1, m1))), snd (reloc_state h0 (g1, m1)))"
          using Some r2 by (simp add: reloc_state_def)
        also have "\<dots> = marshalDeps recur2 pkgs (a + length h0) deps
             (reloc_state h0 (append_children a [child] g1, m1))"
          using a1 by (simp add: reloc_state_def append_children_reloc)
        also have "\<dots> = reloc_deps h0 (marshalDeps recur1 pkgs a deps (append_children a [child] g1, m1))"
          by (rule Cons.IH) (simp add: a1)
        also have "\<dots> = reloc_deps h0 (marshalDeps recur1 pkgs a (dep # deps) (g, m))"
          using Some r1 by simp
        finally show ?thesis .
      qed
    qed
  qed
qed

lemma marshalPackage_reloc:
  assumes conv: "\<And>p c. conv p = Inr (Some c) \<Longrightarrow> c_Components c = []"
  shows "marshalPackage n conv pkgs pkg (reloc_state h0 st) =
     reloc_res h0 (marshalPackage n conv pkgs pkg st)"
proof (induction n arbitrary: pkg st)
  case 0
  then show ?case by (simp add: reloc_res_def)
next
  case (Suc n)
  obtain g m where st: "st = (g, m)" by (cases st)
  let ?k = "length h0"
  let ?i = "ID (pkg_Package pkg)"
  show ?case
  proof (cases "m ?i")
    case (Some c)
    then show ?thesis by (simp add: st reloc_state_def reloc_res_def)
  next
    case None
    show ?thesis
    proof (cases "conv pkg")
      case (Inl e)
      with None show ?thesis by (simp add: st reloc_state_def reloc_res_def)
    next
      case (Inr oc)
      show ?thesis
      proof (cases oc)
        case None': None
        with None Inr show ?thesis by (simp add: st reloc_state_def reloc_res_def)
      next
        case (Some c)
        have cc: "lift ?k c = c" using conv Inr Some by (simp add: lift_childless)
        have st1: "((h0 @ map (lift ?k) g) @ [c], (map_option (\<lambda>x. x + ?k) \<circ> m)(?i \<mapsto> length g + ?k)) =
           reloc_state h0 (g @ [c], m(?i \<mapsto> length g))"
          using cc by (simp add: reloc_state_def reloc_memo_upd)
        have d: "marshalDeps (marshalPackage n conv pkgs) pkgs (length g + ?k)
             (DependsOn (pkg_Package pkg)) (reloc_state h0 (g @ [c], m(?i \<mapsto> length g))) =
           reloc_deps h0 (marshalDeps (marshalPackage n conv pkgs) pkgs (length g)
             (DependsOn (pkg_Package pkg)) (g @ [c], m(?i \<mapsto> length g)))"
        proof (rule marshalDeps_reloc)
          show "\<And>cp st. marshalPackage n conv pkgs cp (reloc_state h0 st) =
             reloc_res h0 (marshalPackage n conv pkgs cp st)" by (rule Suc.IH)
          show "\<And>cp g m r g' m'. marshalPackage n conv pkgs cp (g, m) = Some (Inr (r, g', m')) \<Longrightarrow>
             length g \<le> length g'" using marshalPackage_frame by blast
          show "length g < length (g @ [c])" by simp
        qed
        have "marshalPackage (Suc n) conv pkgs pkg (reloc_state h0 st) =
          (case marshalDeps (marshalPackage n conv pkgs) pkgs (length g + ?k)
                  (DependsOn (pkg_Package pkg)) (reloc_state h0 (g @ [c], m(?i \<mapsto> length g))) of
             None \<Rightarrow> None
           | Some (Inl e) \<Rightarrow> Some (Inl e)
           | Some (Inr (h', components')) \<Rightarrow> Some (Inr (Some (length g + ?k), h', components')))"
          using None Inr Some cc
          by (simp add: st reloc_state_def add.commute cong: option.case_cong sum.case_cong)
        also have "\<dots> = reloc_res h0 (marshalPackage (Suc n) conv pkgs pkg st)"
          using None Inr Some unfolding d
          by (simp add: st reloc_res_def reloc_deps_def split: option.splits sum.splits)
        finally show ?thesis .
      qed
    qed
  qed
qed

lemma reloc_state_empty [simp]: "reloc_state h0 ([], Map.empty) = (h0, Map.empty)"
  by (simp add: reloc_state_def fun_eq_iff)

lemma shared_build_closed:
  assumes "shared_build conv pkgs H m lo hi"
  shows "closed_in H lo hi"
  unfolding closed_in_def
proof (intro allI impI ballI)
  fix x c assume x: "lo \<le> x \<and> x < hi" and c: "c \<in> set (c_Components (H ! x))"
  from assms x have "built conv pkgs H m x" unfolding shared_build_def by blast
  then obtain q :: Package where
    ch: "c_Components (H ! x) =
      map (\<lambda>cp. m (ID (pkg_Package cp))) (resolved pkgs (DependsOn (pkg_Package q)))"
    and nn: "None \<notin> set (c_Components (H ! x))" unfolding built_def by blast
  from c ch obtain cp :: Package where "c = m (ID (pkg_Package cp))" by auto
  moreover from c nn have "c \<noteq> None" by metis
  ultimately obtain y where y: "c = Some y" "m (ID (pkg_Package cp)) = Some y" by auto
  from assms y(2) have "lo \<le> y \<and> y < hi" unfolding shared_build_def by blast
  with y(1) show "\<exists>y. c = Some y \<and> lo \<le> y \<and> y < hi" by blast
qed

lemma closed_in_union:
  assumes "closed_in H lo mid" "closed_in H mid hi" "lo \<le> mid" "mid \<le> hi"
  shows "closed_in H lo hi"
  unfolding closed_in_def
proof (intro allI impI ballI)
  fix x c assume x: "lo \<le> x \<and> x < hi" and c: "c \<in> set (c_Components (H ! x))"
  show "\<exists>y. c = Some y \<and> lo \<le> y \<and> y < hi"
  proof (cases "x < mid")
    case True
    with x c assms(1) obtain y where "c = Some y" "lo \<le> y" "y < mid"
      unfolding closed_in_def by blast
    with assms(4) show ?thesis by auto
  next
    case False
    with x c assms(2) obtain y where "c = Some y" "mid \<le> y" "y < hi"
      unfolding closed_in_def by (metis not_less)
    with assms(3) show ?thesis by auto
  qed
qed

lemma segmented_closed: "segmented n conv pkgs H rs lo hi \<Longrightarrow> closed_in H lo hi"
proof (induction rs arbitrary: lo)
  case Nil
  then show ?case by (auto simp: closed_in_def)
next
  case (Cons x rs)
  obtain r pkg where x: "x = (r, pkg)" by (cases x)
  from Cons.prems obtain mid m where
    y: "lo < mid" "mid \<le> hi" "shared_build conv pkgs H m lo mid"
       "segmented n conv pkgs H rs mid hi" by (auto simp: x)
  have A: "closed_in H lo mid" using y(3) by (rule shared_build_closed)
  have B: "closed_in H mid hi" using y(4) by (rule Cons.IH)
  have C: "lo \<le> mid" using y(1) by simp
  show ?case using A B C y(2) by (rule closed_in_union)
qed

lemma root_build_tree:
  assumes conv: "\<And>p. \<exists>c. conv p = Inr (Some c) \<and> c_Components c = []"
    and mem: "pkg \<in> snd ` set pkgs"
    and mp: "marshalPackage n conv pkgs pkg (h, Map.empty) = Some (Inr (r, h1, m1))"
  shows "r = Some (length h) \<and> length h < length h1 \<and>
     closed_in h1 (length h) (length h1) \<and>
     mv d h1 (Some (length h)) = rootTree n d conv pkgs pkg"
proof -
  let ?k = "length h"
  from conv obtain c where c: "conv pkg = Inr (Some c)" by blast
  have "(case conv pkg of Inr (Some c) \<Rightarrow> r = Some (length h) \<and> length h < length h1 \<and>
            node_data (h1 ! length h) = node_data c
          | _ \<Rightarrow> r = None \<and> h1 = h)"
    by (rule marshalPackage_root [OF mp]) simp
  with c have r: "r = Some ?k" and l: "?k < length h1" by auto
  have "post_pkg conv pkgs pkg h Map.empty r h1 m1"
    using conv mem mp by (rule marshalPackage_shares)
  then have "shared_build conv pkgs h1 m1 ?k (length h1)"
    by (simp add: post_pkg_def shared_build_def)
  then have cl1: "closed_in h1 ?k (length h1)" by (rule shared_build_closed)
  have cv: "c_Components c' = []" if "conv p = Inr (Some c')" for p c'
  proof -
    from conv [of p] obtain c2 where "conv p = Inr (Some c2)" "c_Components c2 = []" by blast
    with that show ?thesis by simp
  qed
  have "marshalPackage n conv pkgs pkg (reloc_state h ([], Map.empty)) =
      reloc_res h (marshalPackage n conv pkgs pkg ([], Map.empty))"
    using cv by (rule marshalPackage_reloc)
  with mp have rr: "reloc_res h (marshalPackage n conv pkgs pkg ([], Map.empty)) =
      Some (Inr (r, h1, m1))" by simp
  have "\<exists>r0 g m0. marshalPackage n conv pkgs pkg ([], Map.empty) = Some (Inr (r0, g, m0)) \<and>
      h1 = h @ map (lift ?k) g"
  proof (cases "marshalPackage n conv pkgs pkg ([], Map.empty)")
    case None
    with rr show ?thesis by (simp add: reloc_res_def)
  next
    case (Some res)
    show ?thesis
    proof (cases res)
      case (Inl e)
      with Some rr show ?thesis by (simp add: reloc_res_def)
    next
      case (Inr t)
      obtain r0 g m0 where t: "t = (r0, g, m0)" by (cases t)
      from Some Inr t rr have "h1 = h @ map (lift ?k) g"
        by (simp add: reloc_res_def reloc_state_def)
      with Some Inr t show ?thesis by simp
    qed
  qed
  then obtain r0 g m0 where
    canon: "marshalPackage n conv pkgs pkg ([], Map.empty) = Some (Inr (r0, g, m0))"
    and h1: "h1 = h @ map (lift ?k) g" by blast
  have "(case conv pkg of Inr (Some c) \<Rightarrow> r0 = Some (length ([] :: heap)) \<and>
            length ([] :: heap) < length g \<and> node_data (g ! length ([] :: heap)) = node_data c
          | _ \<Rightarrow> r0 = None \<and> g = [])"
    by (rule marshalPackage_root [OF canon]) simp
  with c have r0: "r0 = Some 0" and lg: "0 < length g" by auto
  have "post_pkg conv pkgs pkg [] Map.empty r0 g m0"
    using conv mem canon by (rule marshalPackage_shares)
  then have "shared_build conv pkgs g m0 0 (length g)"
    by (simp add: post_pkg_def shared_build_def)
  then have clg: "closed_in g 0 (length g)" by (rule shared_build_closed)
  have "0 \<in> {..<length g}" using lg by simp
  then have "mv d h1 (Some (0 + ?k)) = mv d g (Some 0)"
  proof (rule mv_bisim [where S = "{..<length g}" and f = "\<lambda>x. x + ?k", rotated])
    fix x assume "x \<in> {..<length g}"
    then have x: "x < length g" by simp
    then have "h1 ! (x + ?k) = lift ?k (g ! x)" by (simp add: h1 nth_append)
    moreover have "\<forall>c \<in> set (c_Components (g ! x)). \<exists>y. c = Some y \<and> y \<in> {..<length g}"
      using clg x unfolding closed_in_def by auto
    ultimately show "node_data (h1 ! (x + ?k)) = node_data (g ! x) \<and>
      c_Components (h1 ! (x + ?k)) = map (map_option (\<lambda>x. x + ?k)) (c_Components (g ! x)) \<and>
      (\<forall>c \<in> set (c_Components (g ! x)). \<exists>y. c = Some y \<and> y \<in> {..<length g})"
      by simp
  qed
  moreover have "rootTree n d conv pkgs pkg = mv d g (Some 0)"
    by (simp add: rootTree_def canon r0)
  ultimately show ?thesis using r l cl1 by simp
qed

lemma marshalRoots_trees:
  assumes conv: "\<And>p. \<exists>c. conv p = Inr (Some c) \<and> c_Components c = []"
    and fuel: "length pkgs < n"
  shows "set es \<subseteq> set pkgs \<Longrightarrow>
    marshalRoots n conv pkgs parents es direct h = Some (Inr (roots, h')) \<Longrightarrow>
    \<exists>new. roots = direct @ new \<and>
       map (mv d h') new =
         map (\<lambda>e. rootTree n d conv pkgs (snd e))
           (filter (\<lambda>e. \<not> (Indirect (pkg_Package (snd e)) \<and>
                            parents (ID (pkg_Package (snd e))) \<noteq> [])) es)"
proof (induction es arbitrary: direct h)
  case Nil
  then show ?case by simp
next
  case (Cons x es)
  obtain k pkg where x: "x = (k, pkg)" by (cases x)
  from Cons.prems have sub: "set es \<subseteq> set pkgs" and mem: "pkg \<in> snd ` set pkgs"
    by (auto simp: x intro: rev_image_eqI)
  show ?case
  proof (cases "Indirect (pkg_Package pkg) \<and> parents (ID (pkg_Package pkg)) \<noteq> []")
    case True
    with Cons.prems(2) have "marshalRoots n conv pkgs parents es direct h = Some (Inr (roots, h'))"
      by (simp add: x)
    from Cons.IH [OF sub this] True show ?thesis by (simp add: x)
  next
    case False
    have ne: "\<And>p. \<not> isl (conv p)" using conv by (metis sum.disc(2))
    have "\<And>e. marshalPackage n conv pkgs pkg (h, Map.empty) \<noteq> Some (Inl e)"
      by (rule marshalPackage_no_error) (rule ne)
    with Cons.prems(2) False obtain r h1 m1 where
      mp: "marshalPackage n conv pkgs pkg (h, Map.empty) = Some (Inr (r, h1, m1))"
      by (auto simp: x split: option.splits sum.splits)
    from root_build_tree [OF conv mem mp, of d] have r: "r = Some (length h)"
      and l: "length h < length h1" and cl: "closed_in h1 (length h) (length h1)"
      and t: "mv d h1 (Some (length h)) = rootTree n d conv pkgs pkg" by auto
    from Cons.prems(2) False mp r have
      rest: "marshalRoots n conv pkgs parents es (direct @ [Some (length h)]) h1 = Some (Inr (roots, h'))"
      by (auto simp: x)
    from Cons.IH [OF sub rest] obtain new where
      n1: "roots = (direct @ [Some (length h)]) @ new"
      and n2: "map (mv d h') new =
         map (\<lambda>e. rootTree n d conv pkgs (snd e))
           (filter (\<lambda>e. \<not> (Indirect (pkg_Package (snd e)) \<and>
                            parents (ID (pkg_Package (snd e))) \<noteq> [])) es)" by blast
    from marshalRoots_segmented [OF conv fuel sub rest] have e2: "extends h1 h'" by blast
    have "mv d h' (Some (length h)) = mv d h1 (Some (length h))"
      using cl _ _ l
    proof (rule mv_frame)
      show "\<And>y. length h \<le> y \<Longrightarrow> y < length h1 \<Longrightarrow> h' ! y = h1 ! y"
        using e2 by (simp add: extends_def)
    qed simp
    with t have "mv d h' (Some (length h)) = rootTree n d conv pkgs pkg" by simp
    with n2 False have "map (mv d h') (Some (length h) # new) =
         map (\<lambda>e. rootTree n d conv pkgs (snd e))
           (filter (\<lambda>e. \<not> (Indirect (pkg_Package (snd e)) \<and>
                            parents (ID (pkg_Package (snd e))) \<noteq> [])) (x # es))"
      by (simp add: x)
    moreover have "roots = direct @ (Some (length h) # new)" using n1 by simp
    ultimately show ?thesis by blast
  qed
qed

section \<open>The graph of a Report up to the order of children\<close>

lemma packageMap_mapRange [simp]:
  "packageMap (env\<lparr>mapRange := f\<rparr>) metadata result = packageMap env metadata result"
  by (simp add: packageMap_def Let_def cong: if_cong)

lemma rootComponent_mapRange [simp]:
  "rootComponent (env\<lparr>mapRange := f\<rparr>) r = rootComponent env r"
  by (simp add: rootComponent_def toCoreComponent_def Let_def)

lemma forestTrees_mapRange [simp]:
  "forestTrees (env\<lparr>mapRange := f\<rparr>) d metadata result = forestTrees env d metadata result"
  by (simp add: forestTrees_def)

lemma resultTrees_mapRange [simp]:
  "resultTrees (env\<lparr>mapRange := f\<rparr>) d metadata = resultTrees env d metadata"
  by (rule ext) (simp add: resultTrees_def split: nat.splits)

lemma reportTree_mapRange [simp]: "reportTree (env\<lparr>mapRange := f\<rparr>) d r = reportTree env d r"
  by (simp add: reportTree_def split: sum.splits nat.splits)

lemma mv_frame_list:
  assumes "closed_in H lo hi" and "\<And>x. lo \<le> x \<Longrightarrow> x < hi \<Longrightarrow> H' ! x = H ! x"
    and "\<And>p. p \<in> set ps \<Longrightarrow> \<exists>a. p = Some a \<and> lo \<le> a \<and> a < hi"
  shows "map (mv d H') ps = map (mv d H) ps"
proof (rule map_cong [OF refl])
  fix p assume "p \<in> set ps"
  from assms(3) [OF this] obtain a where a: "p = Some a" "lo \<le> a" "a < hi" by blast
  show "mv d H' p = mv d H p" unfolding a(1) using assms(1,2) a(2,3) by (rule mv_frame)
qed

lemma closed_in_cong:
  assumes "closed_in H lo hi" and "\<And>x. lo \<le> x \<Longrightarrow> x < hi \<Longrightarrow> H' ! x = H ! x"
  shows "closed_in H' lo hi"
  using assms unfolding closed_in_def by simp

lemma children_set_children [simp]:
  "a < length h \<Longrightarrow> c_Components (set_children a cs h ! a) = cs"
  by (simp add: set_children_def)

lemma marshalPackages_trees:
  assumes rng: "range_ok env (packageMap env metadata result)"
  shows "\<exists>roots h'. marshalPackages pkgComponent env metadata result h = Some (Inr (roots, h')) \<and>
     extends h h' \<and> fresh_in h h' roots \<and> closed_in h' (length h) (length h') \<and>
     (\<forall>d. mset (map (mv d h') roots) = forestTrees env d metadata result)"
proof -
  let ?pkgs = "packageMap env metadata result"
  let ?es = "mapRange env ?pkgs"
  let ?parents = "ParentDeps (res_Packages result)"
  have c: "\<And>p. \<exists>c. pkgComponent p = Inr (Some c) \<and> c_Components c = []"
    using pkgComponent_Some pkgComponent_children by blast
  from marshalPackages_spec [where conv = pkgComponent and h = h, OF pkgComponent_no_error rng]
  obtain roots h' where
    m: "marshalPackages pkgComponent env metadata result h = Some (Inr (roots, h'))"
    and e: "extends h h'" and f: "fresh_in h h' roots" by blast
  from m have mr: "marshalRoots (Suc (length ?pkgs)) pkgComponent ?pkgs ?parents ?es [] h =
      Some (Inr (roots, h'))"
    by (simp add: marshalPackages_def Let_def)
  have sub: "set ?es \<subseteq> set ?pkgs" using rng by (simp add: range_ok_set)
  have fuel: "length ?pkgs < Suc (length ?pkgs)" by simp
  from marshalRoots_segmented [OF c fuel sub mr]
  have "segmented (Suc (length ?pkgs)) pkgComponent ?pkgs h'
      (zip roots (candidates ?parents ?es)) (length h) (length h')" by auto
  then have cl: "closed_in h' (length h) (length h')" by (rule segmented_closed)
  have "mset (map (mv d h') roots) = forestTrees env d metadata result" for d
  proof -
    from marshalRoots_trees [OF c fuel sub mr, of d]
    have "map (mv d h') roots =
         map (\<lambda>e. rootTree (Suc (length ?pkgs)) d pkgComponent ?pkgs (snd e))
           (filter (\<lambda>e. \<not> (Indirect (pkg_Package (snd e)) \<and>
                            ?parents (ID (pkg_Package (snd e))) \<noteq> [])) ?es)" by auto
    then have "mset (map (mv d h') roots) =
         image_mset (\<lambda>e. rootTree (Suc (length ?pkgs)) d pkgComponent ?pkgs (snd e))
           (filter_mset (\<lambda>e. \<not> (Indirect (pkg_Package (snd e)) \<and>
                            ?parents (ID (pkg_Package (snd e))) \<noteq> [])) (mset ?es))"
      by simp
    also have "mset ?es = mset ?pkgs" using rng by (simp add: range_ok_def)
    finally show ?thesis by (simp add: forestTrees_def)
  qed
  with m e f cl show ?thesis by blast
qed

lemma marshalResult_trees:
  assumes rng: "range_ok env (packageMap env metadata result)"
  shows "\<exists>comps h'. marshalResult env metadata result h = Some (Inr (comps, h')) \<and>
     extends h h' \<and> fresh_in h h' comps \<and> closed_in h' (length h) (length h') \<and>
     (\<forall>d. mset (map (mv d h') comps) = resultTrees env d metadata result)"
proof (cases "floating result")
  case True
  from marshalPackages_trees [OF rng, of h] obtain roots h' where
    "marshalPackages pkgComponent env metadata result h = Some (Inr (roots, h'))"
    "extends h h'" "fresh_in h h' roots" "closed_in h' (length h) (length h')"
    "\<forall>d. mset (map (mv d h') roots) = forestTrees env d metadata result" by blast
  with True show ?thesis
    by (simp add: marshalResult_def resultTrees_def floating_def)
next
  case nf: False
  show ?thesis
  proof (cases "res_Class result = ClassOSPkg \<or> res_Class result = ClassLangPkg")
    case True
    let ?rc = "resultComponent result (md_OS metadata)"
    let ?a = "length h"
    from marshalPackages_trees [OF rng, of "h @ [?rc]"] obtain roots h2 where
      mp: "marshalPackages pkgComponent env metadata result (h @ [?rc]) = Some (Inr (roots, h2))"
      and e: "extends (h @ [?rc]) h2" and f: "fresh_in (h @ [?rc]) h2 roots"
      and cl: "closed_in h2 (Suc ?a) (length h2)"
      and tr: "\<And>d. mset (map (mv d h2) roots) = forestTrees env d metadata result" by auto
    let ?h' = "set_children ?a roots h2"
    have al: "?a < length h2" using e by (simp add: extends_def)
    have m: "marshalResult env metadata result h = Some (Inr ([Some ?a], ?h'))"
      using nf True mp unfolding marshalResult_def floating_def alloc_def by auto
    have e': "extends h ?h'" using e by (auto simp: extends_def nth_append)
    have f': "fresh_in h ?h' [Some ?a]" using al by (simp add: fresh_in_def)
    have fr: "\<And>x. Suc ?a \<le> x \<Longrightarrow> x < length h2 \<Longrightarrow> ?h' ! x = h2 ! x" by simp
    have cl2: "closed_in ?h' (Suc ?a) (length h2)" using cl fr by (rule closed_in_cong)
    have cl': "closed_in ?h' ?a (length ?h')"
      unfolding closed_in_def
    proof (intro allI impI ballI)
      fix x c assume x: "?a \<le> x \<and> x < length ?h'" and c: "c \<in> set (c_Components (?h' ! x))"
      show "\<exists>y. c = Some y \<and> ?a \<le> y \<and> y < length ?h'"
      proof (cases "x = ?a")
        case True
        with c al have "c \<in> set roots" by simp
        with f obtain y where "c = Some y" "Suc ?a \<le> y" "y < length h2"
          by (auto simp: fresh_in_def)
        then show ?thesis by auto
      next
        case False
        with x have "Suc ?a \<le> x \<and> x < length h2" by simp
        with cl2 c obtain y where "c = Some y" "Suc ?a \<le> y" "y < length h2"
          unfolding closed_in_def by blast
        then show ?thesis by auto
      qed
    qed
    have t: "mset (map (mv d ?h') [Some ?a]) = resultTrees env d metadata result" for d
    proof (cases d)
      case 0
      with nf True show ?thesis by (simp add: resultTrees_def)
    next
      case (Suc d')
      have A: "map (mv d' ?h') roots = map (mv d' h2) roots"
        using cl fr
      proof (rule mv_frame_list)
        fix p assume "p \<in> set roots"
        with f show "\<exists>a. p = Some a \<and> Suc ?a \<le> a \<and> a < length h2"
          by (auto simp: fresh_in_def)
      qed
      have "mset (map (mv d' ?h') roots) = forestTrees env d' metadata result"
        unfolding A by (rule tr)
      moreover have "node_data (?h' ! ?a) = node_data ?rc"
        using e by (simp add: extends_def)
      ultimately show ?thesis using nf True Suc al
        by (simp add: resultTrees_def)
    qed
    from m e' f' cl' t show ?thesis by blast
  next
    case False
    with nf show ?thesis
      by (auto simp: marshalResult_def resultTrees_def floating_def fresh_in_def closed_in_def)
  qed
qed

lemma marshalResults_trees:
  assumes root: "root < length h"
  shows "\<forall>res\<in>set rs. range_ok env (packageMap env metadata res) \<Longrightarrow>
    \<exists>new h'. marshalResults env metadata root rs h = Some (Inr h') \<and>
       length h \<le> length h' \<and> (\<forall>b<length h. b \<noteq> root \<longrightarrow> h' ! b = h ! b) \<and>
       node_data (h' ! root) = node_data (h ! root) \<and>
       c_Components (h' ! root) = c_Components (h ! root) @ new \<and>
       fresh_in h h' new \<and> closed_in h' (length h) (length h') \<and>
       (\<forall>d. mset (map (mv d h') new) = sum_list (map (resultTrees env d metadata) rs))"
  using root
proof (induction rs arbitrary: h)
  case Nil
  then show ?case by (auto simp: fresh_in_def closed_in_def)
next
  case (Cons res rs)
  from Cons.prems have rng: "range_ok env (packageMap env metadata res)"
    and rngs: "\<forall>res\<in>set rs. range_ok env (packageMap env metadata res)" by auto
  from marshalResult_trees [OF rng, of h] obtain comps h1 where
    mr: "marshalResult env metadata res h = Some (Inr (comps, h1))"
    and e: "extends h h1" and f: "fresh_in h h1 comps"
    and cl: "closed_in h1 (length h) (length h1)"
    and tr: "\<And>d. mset (map (mv d h1) comps) = resultTrees env d metadata res" by auto
  let ?h1 = "append_children root comps h1"
  have rl: "root < length h1" using Cons.prems(2) e by (simp add: extends_def)
  have r1: "root < length ?h1" using rl by simp
  have hr: "h1 ! root = h ! root" using Cons.prems(2) e by (simp add: extends_def)
  from Cons.IH [OF rngs r1] obtain new h' where
    ms: "marshalResults env metadata root rs ?h1 = Some (Inr h')"
    and l: "length ?h1 \<le> length h'"
    and fr: "\<And>b. b < length ?h1 \<Longrightarrow> b \<noteq> root \<Longrightarrow> h' ! b = ?h1 ! b"
    and nd: "node_data (h' ! root) = node_data (?h1 ! root)"
    and ch: "c_Components (h' ! root) = c_Components (?h1 ! root) @ new"
    and f': "fresh_in ?h1 h' new"
    and cl': "closed_in h' (length ?h1) (length h')"
    and tr': "\<And>d. mset (map (mv d h') new) = sum_list (map (resultTrees env d metadata) rs)"
    by auto
  have same: "h' ! x = h1 ! x" if "length h \<le> x" "x < length h1" for x
  proof -
    have "x \<noteq> root" using that(1) Cons.prems(2) by simp
    then show ?thesis using fr [of x] that(2) by simp
  qed
  have le: "length h \<le> length h1" using e by (simp add: extends_def)
  have le': "length h1 \<le> length h'" using l by simp
  have "marshalResults env metadata root (res # rs) h = Some (Inr h')"
    using mr ms by simp
  moreover have "length h \<le> length h'" using le le' by simp
  moreover have "\<forall>b<length h. b \<noteq> root \<longrightarrow> h' ! b = h ! b"
    using fr e by (auto simp: extends_def)
  moreover have "node_data (h' ! root) = node_data (h ! root)"
    using nd hr by simp
  moreover have "c_Components (h' ! root) = c_Components (h ! root) @ (comps @ new)"
    using ch rl hr by simp
  moreover have "fresh_in h h' (comps @ new)"
    using f f' l e by (fastforce simp: fresh_in_def extends_def)
  moreover have "closed_in h' (length h) (length h')"
  proof (rule closed_in_union [where mid = "length h1"])
    show "closed_in h' (length h) (length h1)" using cl same by (rule closed_in_cong)
    show "closed_in h' (length h1) (length h')" using cl' by simp
    show "length h \<le> length h1" by (rule le)
    show "length h1 \<le> length h'" by (rule le')
  qed
  moreover have "\<forall>d. mset (map (mv d h') (comps @ new)) =
      sum_list (map (resultTrees env d metadata) (res # rs))"
  proof
    fix d
    have A: "map (mv d h') comps = map (mv d h1) comps"
      using cl same
    proof (rule mv_frame_list)
      fix p assume "p \<in> set comps"
      with f show "\<exists>a. p = Some a \<and> length h \<le> a \<and> a < length h1"
        by (auto simp: fresh_in_def)
    qed
    have "mset (map (mv d h') comps) = resultTrees env d metadata res"
      unfolding A by (rule tr)
    moreover have "mset (map (mv d h') (comps @ new)) =
       mset (map (mv d h') comps) + mset (map (mv d h') new)" by simp
    ultimately show "mset (map (mv d h') (comps @ new)) =
      sum_list (map (resultTrees env d metadata) (res # rs))"
      using tr' [of d] by simp
  qed
  ultimately show ?case by blast
qed

lemma MarshalReport_tree:
  assumes "\<forall>res\<in>set (Results r). range_ok env (packageMap env (rep_Metadata r) res)"
  shows "(case rootComponent env r of
            Inl e \<Rightarrow> MarshalReport env r = Some (Inl e)
          | Inr rootc \<Rightarrow> \<exists>h. MarshalReport env r = Some (Inr (0, h)) \<and>
               (\<forall>d. mv d h (Some 0) = reportTree env d r))"
proof (cases "rootComponent env r")
  case (Inl e)
  then show ?thesis by (simp add: MarshalReport_def)
next
  case (Inr rootc)
  have "0 < length [rootc]" by simp
  from marshalResults_trees [OF this assms] obtain new h' where
    ms: "marshalResults env (rep_Metadata r) 0 (Results r) [rootc] = Some (Inr h')"
    and nd: "node_data (h' ! 0) = node_data ([rootc] ! 0)"
    and ch: "c_Components (h' ! 0) = c_Components ([rootc] ! 0) @ new"
    and tr: "\<And>d. mset (map (mv d h') new) =
        sum_list (map (resultTrees env d (rep_Metadata r)) (Results r))" by auto
  have ch': "c_Components (h' ! 0) = new" using ch rootComponent_children [OF Inr] by simp
  have m: "MarshalReport env r = Some (Inr (0, h'))"
    using Inr ms by (simp add: MarshalReport_def alloc_def)
  have "mv d h' (Some 0) = reportTree env d r" for d
  proof (cases d)
    case 0
    then show ?thesis using Inr by (simp add: reportTree_def)
  next
    case (Suc d')
    have "image_mset (mv d' h') (mset new) =
        sum_list (map (resultTrees env d' (rep_Metadata r)) (Results r))"
      using tr [of d'] by simp
    then show ?thesis using Suc Inr nd ch' by (simp add: reportTree_def)
  qed
  with m Inr show ?thesis by simp
qed

section \<open>Two packages that depend on each other\<close>

lemma mset_two_cases:
  assumes "mset xs = mset [x, y]"
  shows "xs = [x, y] \<or> xs = [y, x]"
proof -
  from assms have l: "length xs = 2" by (metis length_Cons list.size(3) size_mset numeral_2_eq_2)
  then obtain a b where xs: "xs = [a, b]"
    by (cases xs; cases "tl xs") (auto simp: numeral_2_eq_2)
  with assms have "{#a, b#} = {#x, y#}" by simp
  then show ?thesis unfolding xs by (auto simp: add_eq_conv_ex)
qed

lemma two_cycle_forest:
  assumes ne: "a \<noteq> b"
    and pkgs: "map_of pkgs a = Some PA" "map_of pkgs b = Some PB"
    and A: "ID (pkg_Package PA) = a" "DependsOn (pkg_Package PA) = [b]" "\<not> Indirect (pkg_Package PA)"
    and B: "ID (pkg_Package PB) = b" "DependsOn (pkg_Package PB) = [a]" "\<not> Indirect (pkg_Package PB)"
    and cA: "conv PA = Inr (Some cA)" "c_Components cA = []"
    and cB: "conv PB = Inr (Some cB)" "c_Components cB = []"
  shows "marshalRoots (Suc (Suc (Suc k))) conv pkgs parents [(a, PA), (b, PB)] [] h =
     Some (Inr ([Some (length h), Some (length h + 2)],
       h @ [cA\<lparr>c_Components := [Some (length h + 1)]\<rparr>, cB\<lparr>c_Components := [Some (length h)]\<rparr>,
            cB\<lparr>c_Components := [Some (length h + 3)]\<rparr>, cA\<lparr>c_Components := [Some (length h + 2)]\<rparr>]))"
  using assms
  by (simp add: append_children_def nth_append list_update_append)

section \<open>Claims about the leaf functions\<close>

lemma lo_Filter_from_filter: "lo_Filter_from i (\<lambda>x k. P x) xs = filter P xs"
  by (induction xs arbitrary: i) simp_all


text \<open>
  C5. \<open>filterProperties\<close> returns exactly the entries whose value is not empty and which
  are not the source-epoch property with value "0", in their original order: it is a
  stable filter, a subsequence of its input.
\<close>

theorem filterProperties_stable_filter:
  "filterProperties props =
     filter (\<lambda>p. prop_Value p \<noteq> [] \<and> \<not> (prop_Name p = PropertySrcEpoch \<and> prop_Value p = ''0'')) props
   \<and> subseq (filterProperties props) props"
proof -
  have "filterProperties props =
     filter (\<lambda>p. \<not> (prop_Value p = [] \<or> (prop_Name p = PropertySrcEpoch \<and> prop_Value p = ''0''))) props"
    unfolding filterProperties_def lo_Filter_def by (rule lo_Filter_from_filter)
  also have "\<dots> = filter (\<lambda>p. prop_Value p \<noteq> [] \<and> \<not> (prop_Name p = PropertySrcEpoch \<and> prop_Value p = ''0'')) props"
    by (rule filter_cong) auto
  finally show ?thesis by simp
qed

text \<open>
  An empty value and a source epoch "0" are dropped; a source epoch "5" and the value "0"
  of another property are kept.
\<close>

theorem filterProperties_stable_filter_witness:
  "filterProperties [mkProp PropertyPkgID ''a@1'', mkProp PropertyFilePath [], mkProp PropertySrcEpoch ''0'',
      mkProp PropertySrcName ''0'', mkProp PropertySrcEpoch ''5'', mkProp PropertySrcEpoch []]
   = [mkProp PropertyPkgID ''a@1'', mkProp PropertySrcName ''0'', mkProp PropertySrcEpoch ''5'']"
  using filterProperties_stable_filter [of "[mkProp PropertyPkgID ''a@1'', mkProp PropertyFilePath [], mkProp PropertySrcEpoch ''0'',
      mkProp PropertySrcName ''0'', mkProp PropertySrcEpoch ''5'', mkProp PropertySrcEpoch []]"]
  by (simp add: mkProp_def Property_names)


text \<open>
  C6. \<open>pkgComponent\<close> always yields a component.  With a package URL its version is the
  URL's version, and exactly for the types Maven and npm its name and group are the URL's
  name and namespace; otherwise the name is the package's own and the group is empty.
  Without a package URL name and version are the package's own and the group is empty.
\<close>

theorem pkgComponent_identity:
  "\<exists>c. pkgComponent pkg = Inr (Some c) \<and>
     (case Identifier_PURL (pkg_Package pkg) of
        None \<Rightarrow> c_Name c = Name (pkg_Package pkg) \<and> c_Group c = [] \<and>
                c_Version c = Version (pkg_Package pkg)
      | Some pu \<Rightarrow>
          c_Version c = purl_Version pu \<and>
          (if purl_Type pu = TypeMaven \<or> purl_Type pu = TypeNPM
           then c_Name c = purl_Name pu \<and> c_Group c = purl_Namespace pu
           else c_Name c = Name (pkg_Package pkg) \<and> c_Group c = []))"
  by (auto simp: pkgComponent_def pkgIdentity_def Let_def split: option.splits)

text \<open>The Maven package \<open>com.acme:lib\<close> with resolved version 2.3.0.\<close>

theorem pkgComponent_identity_witness:
  "\<exists>c. pkgComponent mavenPackage = Inr (Some c) \<and>
     c_Name c = ''lib'' \<and> c_Group c = ''com.acme'' \<and> c_Version c = ''2.3.0''"
  using pkgComponent_identity [of mavenPackage]
  by (auto simp: mavenPackage_def emptyPackage_def TypeMaven_def)


section \<open>Claims about marshalPackages\<close>

text \<open>
  C1, as the code has it.  When the \<open>range\<close> loop visits exactly the entries of the package
  map, \<open>marshalPackages\<close> returns one root for each package the loop does not skip, leaves
  the older components of the store alone, and what it adds to the store splits into
  consecutive builds, one for each root in the order of the visit.  The build of a root is
  what \<open>marshalPackage\<close> produces for the root's package from an empty memo map; the root
  is converted from that package and its children are the components of its dependencies
  that are present in the package map.  Within the build of one root there is one
  component for each package \<open>ID\<close> of the build's memo map, every component of the build
  is converted from a package of the package map and has as children, in order, exactly
  the memo map's components for that package's dependencies, and no component of the
  build points outside the build.  Every root is built with a memo map of its own, so the
  builds of two roots share nothing.
\<close>

theorem marshalPackages_shares_per_root:
  assumes "range_ok env (packageMap env metadata result)"
  shows "\<exists>roots h'. marshalPackages pkgComponent env metadata result h = Some (Inr (roots, h')) \<and>
     extends h h' \<and>
     length roots = length (candidates (ParentDeps (res_Packages result))
                              (mapRange env (packageMap env metadata result))) \<and>
     segmented (Suc (length (packageMap env metadata result))) pkgComponent
       (packageMap env metadata result) h'
       (zip roots (candidates (ParentDeps (res_Packages result))
                     (mapRange env (packageMap env metadata result))))
       (length h) (length h')"
proof -
  let ?pkgs = "packageMap env metadata result"
  let ?cs = "candidates (ParentDeps (res_Packages result)) (mapRange env ?pkgs)"
  have c: "\<And>p. \<exists>c. pkgComponent p = Inr (Some c) \<and> c_Components c = []"
    using pkgComponent_Some pkgComponent_children by blast
  from marshalPackages_spec [where conv = pkgComponent and h = h, OF pkgComponent_no_error assms]
  obtain roots h' where
    m: "marshalPackages pkgComponent env metadata result h = Some (Inr (roots, h'))" by blast
  then have mr: "marshalRoots (Suc (length ?pkgs)) pkgComponent ?pkgs
      (ParentDeps (res_Packages result)) (mapRange env ?pkgs) [] h = Some (Inr (roots, h'))"
    by (simp add: marshalPackages_def Let_def)
  have sub: "set (mapRange env ?pkgs) \<subseteq> set ?pkgs" using assms by (simp add: range_ok_set)
  have fuel: "length ?pkgs < Suc (length ?pkgs)" by simp
  from marshalRoots_segmented [OF c fuel sub mr]
  have "extends h h' \<and> length roots = length ?cs \<and>
      segmented (Suc (length ?pkgs)) pkgComponent ?pkgs h' (zip roots ?cs) (length h) (length h')"
    by auto
  with m show ?thesis by blast
qed

text \<open>
  One root \<open>x\<close> that depends on \<open>a\<close> and \<open>b\<close>, which both depend on \<open>p\<close>: the
  children of \<open>a\<close> and of \<open>b\<close> are the same component, at address 2.
\<close>

theorem marshalPackages_shares_per_root_witness:
  "\<exists>roots h'. marshalPackages pkgComponent env0 md0 res_shared [] = Some (Inr (roots, h')) \<and>
     segmented (Suc (length (packageMap env0 md0 res_shared))) pkgComponent
       (packageMap env0 md0 res_shared) h'
       (zip roots (candidates (ParentDeps (res_Packages res_shared))
                     (mapRange env0 (packageMap env0 md0 res_shared))))
       0 (length h') \<and>
     forest_of (Some (Inr (roots, h'))) =
       Some ([Some 0], [(''x'', [Some 1, Some 3]), (''a'', [Some 2]), (''p'', []), (''b'', [Some 2])])"
proof -
  have r: "range_ok env0 (packageMap env0 md0 res_shared)"
    by (simp add: range_ok_def env0_def)
  from marshalPackages_shares_per_root [OF r, of "[]"] obtain roots h' where
    m: "marshalPackages pkgComponent env0 md0 res_shared [] = Some (Inr (roots, h'))"
    and s: "segmented (Suc (length (packageMap env0 md0 res_shared))) pkgComponent
       (packageMap env0 md0 res_shared) h'
       (zip roots (candidates (ParentDeps (res_Packages res_shared))
                     (mapRange env0 (packageMap env0 md0 res_shared))))
       (length ([] :: heap)) (length h')"
    by blast
  have "forest_of (marshalPackages pkgComponent env0 md0 res_shared []) =
       Some ([Some 0], [(''x'', [Some 1, Some 3]), (''a'', [Some 2]), (''p'', []), (''b'', [Some 2])])"
    by (simp add: example_defs marshal_defs)
  with m s show ?thesis by simp
qed

text \<open>
  C1 as stated fails for two direct packages \<open>a\<close> and \<open>b\<close> that both depend on \<open>p\<close>:
  each of them is a root, the child of \<open>a\<close> is the component at address 3 and the child
  of \<open>b\<close> is the one at address 5, two components for \<open>p\<close>.
\<close>

theorem marshalPackages_shares_per_root_counterexample:
  "graph_of (MarshalReport env0 (mkReport ArtifactFilesystem [res_diamond])) =
     Some (0, [(''artifact'', [Some 1]), (''/app/package-lock.json'', [Some 2, Some 4]),
               (''a'', [Some 3]), (''p'', []), (''b'', [Some 5]), (''p'', [])])"
  by (simp add: example_defs marshal_defs)

text \<open>
  C2. When the \<open>range\<close> loop visits exactly the entries of the package map,
  \<open>marshalPackages\<close> returns for every Result, whatever its dependency edges and
  whatever the conversion does: the depth bound of one more than the number of packages
  is never hit, because every call that goes on registers a new \<open>ID\<close> in the memo map
  before it descends.  For two direct packages \<open>A\<close> and \<open>B\<close> with different non-empty
  \<open>ID\<close>s that depend on each other, both are roots, in one order or the other; each
  root has exactly one child, the component of the other package, whose only child is the
  root again.
\<close>

theorem marshalPackages_terminates_on_cycles:
  assumes "range_ok env (packageMap env metadata result)"
  shows "marshalPackages conv env metadata result h \<noteq> None \<and>
     (res_Packages result = [A, B] \<and> ID A \<noteq> [] \<and> ID B \<noteq> [] \<and> ID A \<noteq> ID B \<and>
      DependsOn A = [ID B] \<and> DependsOn B = [ID A] \<and> \<not> Indirect A \<and> \<not> Indirect B \<longrightarrow>
      (\<exists>roots h' ra rb ca cb.
          marshalPackages pkgComponent env metadata result h = Some (Inr (roots, h')) \<and>
          (roots = [Some ra, Some rb] \<or> roots = [Some rb, Some ra]) \<and>
          c_Components (h' ! ra) = [Some cb] \<and> c_Components (h' ! cb) = [Some ra] \<and>
          c_Components (h' ! rb) = [Some ca] \<and> c_Components (h' ! ca) = [Some rb] \<and>
          pkgComponent (packageOf metadata result A) = Inr (Some (node_data (h' ! ra))) \<and>
          pkgComponent (packageOf metadata result A) = Inr (Some (node_data (h' ! ca))) \<and>
          pkgComponent (packageOf metadata result B) = Inr (Some (node_data (h' ! rb))) \<and>
          pkgComponent (packageOf metadata result B) = Inr (Some (node_data (h' ! cb)))))"
proof (intro conjI impI)
  show "marshalPackages conv env metadata result h \<noteq> None"
    using assms by (rule marshalPackages_returns)
next
  assume c: "res_Packages result = [A, B] \<and> ID A \<noteq> [] \<and> ID B \<noteq> [] \<and> ID A \<noteq> ID B \<and>
      DependsOn A = [ID B] \<and> DependsOn B = [ID A] \<and> \<not> Indirect A \<and> \<not> Indirect B"
  let ?PA = "packageOf metadata result A" and ?PB = "packageOf metadata result B"
  let ?pkgs = "[(ID A, ?PA), (ID B, ?PB)]"
  let ?parents = "ParentDeps (res_Packages result)"
  have pm: "packageMap env metadata result = ?pkgs"
    using c by (simp add: packageMap_def lo_SliceToMap_def packageOf_def Let_def)
  obtain cA where cA: "pkgComponent ?PA = Inr (Some cA)" using pkgComponent_Some by blast
  obtain cB where cB: "pkgComponent ?PB = Inr (Some cB)" using pkgComponent_Some by blast
  have chA: "c_Components cA = []" using cA by (rule pkgComponent_children)
  have chB: "c_Components cB = []" using cB by (rule pkgComponent_children)
  have ndA: "node_data (cA\<lparr>c_Components := x\<rparr>) = cA" for x
    using chA by (simp add: node_data_def)
  have ndB: "node_data (cB\<lparr>c_Components := x\<rparr>) = cB" for x
    using chB by (simp add: node_data_def)
  from assms have "mset (mapRange env ?pkgs) = mset ?pkgs" by (simp add: range_ok_def pm)
  then have "mapRange env ?pkgs = [(ID A, ?PA), (ID B, ?PB)] \<or>
      mapRange env ?pkgs = [(ID B, ?PB), (ID A, ?PA)]" by (rule mset_two_cases)
  then show "\<exists>roots h' ra rb ca cb.
          marshalPackages pkgComponent env metadata result h = Some (Inr (roots, h')) \<and>
          (roots = [Some ra, Some rb] \<or> roots = [Some rb, Some ra]) \<and>
          c_Components (h' ! ra) = [Some cb] \<and> c_Components (h' ! cb) = [Some ra] \<and>
          c_Components (h' ! rb) = [Some ca] \<and> c_Components (h' ! ca) = [Some rb] \<and>
          pkgComponent ?PA = Inr (Some (node_data (h' ! ra))) \<and>
          pkgComponent ?PA = Inr (Some (node_data (h' ! ca))) \<and>
          pkgComponent ?PB = Inr (Some (node_data (h' ! rb))) \<and>
          pkgComponent ?PB = Inr (Some (node_data (h' ! cb)))"
  proof
    assume o: "mapRange env ?pkgs = [(ID A, ?PA), (ID B, ?PB)]"
    have "marshalRoots (Suc (Suc (Suc 0))) pkgComponent ?pkgs ?parents [(ID A, ?PA), (ID B, ?PB)] [] h =
      Some (Inr ([Some (length h), Some (length h + 2)],
        h @ [cA\<lparr>c_Components := [Some (length h + 1)]\<rparr>, cB\<lparr>c_Components := [Some (length h)]\<rparr>,
             cB\<lparr>c_Components := [Some (length h + 3)]\<rparr>, cA\<lparr>c_Components := [Some (length h + 2)]\<rparr>]))"
      using c cA cB chA chB by (intro two_cycle_forest) (auto simp: packageOf_def)
    then have m: "marshalPackages pkgComponent env metadata result h =
      Some (Inr ([Some (length h), Some (length h + 2)],
        h @ [cA\<lparr>c_Components := [Some (length h + 1)]\<rparr>, cB\<lparr>c_Components := [Some (length h)]\<rparr>,
             cB\<lparr>c_Components := [Some (length h + 3)]\<rparr>, cA\<lparr>c_Components := [Some (length h + 2)]\<rparr>]))"
      by (simp add: marshalPackages_def pm o)
    show ?thesis
      apply (rule exI [where x = "[Some (length h), Some (length h + 2)]"])
      apply (rule exI [where x = "h @ [cA\<lparr>c_Components := [Some (length h + 1)]\<rparr>, cB\<lparr>c_Components := [Some (length h)]\<rparr>,
             cB\<lparr>c_Components := [Some (length h + 3)]\<rparr>, cA\<lparr>c_Components := [Some (length h + 2)]\<rparr>]"])
      apply (rule exI [where x = "length h"])
      apply (rule exI [where x = "length h + 2"])
      apply (rule exI [where x = "length h + 3"])
      apply (rule exI [where x = "length h + 1"])
      apply (simp add: m cA cB ndA ndB nth_append)
      done
  next
    assume o: "mapRange env ?pkgs = [(ID B, ?PB), (ID A, ?PA)]"
    have "marshalRoots (Suc (Suc (Suc 0))) pkgComponent ?pkgs ?parents [(ID B, ?PB), (ID A, ?PA)] [] h =
      Some (Inr ([Some (length h), Some (length h + 2)],
        h @ [cB\<lparr>c_Components := [Some (length h + 1)]\<rparr>, cA\<lparr>c_Components := [Some (length h)]\<rparr>,
             cA\<lparr>c_Components := [Some (length h + 3)]\<rparr>, cB\<lparr>c_Components := [Some (length h + 2)]\<rparr>]))"
      using c cA cB chA chB by (intro two_cycle_forest) (auto simp: packageOf_def)
    then have m: "marshalPackages pkgComponent env metadata result h =
      Some (Inr ([Some (length h), Some (length h + 2)],
        h @ [cB\<lparr>c_Components := [Some (length h + 1)]\<rparr>, cA\<lparr>c_Components := [Some (length h)]\<rparr>,
             cA\<lparr>c_Components := [Some (length h + 3)]\<rparr>, cB\<lparr>c_Components := [Some (length h + 2)]\<rparr>]))"
      by (simp add: marshalPackages_def pm o)
    show ?thesis
      apply (rule exI [where x = "[Some (length h), Some (length h + 2)]"])
      apply (rule exI [where x = "h @ [cB\<lparr>c_Components := [Some (length h + 1)]\<rparr>, cA\<lparr>c_Components := [Some (length h)]\<rparr>,
             cA\<lparr>c_Components := [Some (length h + 3)]\<rparr>, cB\<lparr>c_Components := [Some (length h + 2)]\<rparr>]"])
      apply (rule exI [where x = "length h + 2"])
      apply (rule exI [where x = "length h"])
      apply (rule exI [where x = "length h + 1"])
      apply (rule exI [where x = "length h + 3"])
      apply (simp add: m cA cB ndA ndB nth_append)
      done
  qed
qed

text \<open>The packages \<open>a\<close> and \<open>b\<close> that depend on each other.\<close>

theorem marshalPackages_terminates_on_cycles_witness:
  "forest_of (marshalPackages pkgComponent env0 md0 res_cycle []) =
     Some ([Some 0, Some 2],
           [(''a'', [Some 1]), (''b'', [Some 0]), (''b'', [Some 3]), (''a'', [Some 2])])"
proof -
  have r: "range_ok env0 (packageMap env0 md0 res_cycle)"
    by (simp add: range_ok_def env0_def)
  from marshalPackages_terminates_on_cycles [OF r, of pkgComponent "[]"] show ?thesis
    by (simp add: example_defs marshal_defs)
qed


text \<open>
  C3, as the code has it.  When the \<open>range\<close> loop visits exactly the entries of the package
  map, \<open>marshalPackages\<close> returns, and its root-level components are, children aside and
  in the order of the visit, the components of exactly those entries of the package map
  that are not both marked indirect and named, by their \<open>ID\<close>, in the \<open>DependsOn\<close> of
  some package of the Result's package list.  That package may be the package itself.
\<close>

theorem marshalPackages_root_selection:
  assumes "range_ok env (packageMap env metadata result)"
  shows "\<exists>roots h'. marshalPackages pkgComponent env metadata result h = Some (Inr (roots, h')) \<and>
     fresh_in h h' roots \<and>
     map (\<lambda>c. Inr (Some c)) (nodes_at h' roots) =
       map (\<lambda>e. pkgComponent (snd e))
         (filter (\<lambda>e. \<not> (Indirect (pkg_Package (snd e)) \<and>
              (\<exists>q \<in> set (res_Packages result). ID (pkg_Package (snd e)) \<in> set (DependsOn q))))
            (mapRange env (packageMap env metadata result)))"
proof -
  from marshalPackages_spec [where conv = pkgComponent and h = h, OF pkgComponent_no_error assms]
  obtain roots h' where
    "marshalPackages pkgComponent env metadata result h = Some (Inr (roots, h'))"
    "fresh_in h h' roots"
    "nodes_at h' roots = rootData pkgComponent (ParentDeps (res_Packages result))
                           (mapRange env (packageMap env metadata result))" by blast
  then show ?thesis by (simp add: rootData_pkgComponent)
qed

text \<open>
  The scenario of the specification: \<open>accepts\<close> is indirect and \<open>express\<close> depends on it,
  so \<open>express\<close> is the only root.
\<close>

theorem marshalPackages_root_selection_witness:
  "\<exists>roots h'. marshalPackages pkgComponent env0 md0 res_scenario [] = Some (Inr (roots, h')) \<and>
     map c_Name (nodes_at h' roots) = [''express'']"
proof -
  have r: "range_ok env0 (packageMap env0 md0 res_scenario)"
    by (simp add: range_ok_def env0_def)
  from marshalPackages_root_selection [OF r, of "[]"] obtain roots h' where
    m: "marshalPackages pkgComponent env0 md0 res_scenario [] = Some (Inr (roots, h'))"
    and n: "map (\<lambda>c. Inr (Some c)) (nodes_at h' roots) =
       map (\<lambda>e. pkgComponent (snd e))
         (filter (\<lambda>e. \<not> (Indirect (pkg_Package (snd e)) \<and>
              (\<exists>q \<in> set (res_Packages res_scenario). ID (pkg_Package (snd e)) \<in> set (DependsOn q))))
            (mapRange env0 (packageMap env0 md0 res_scenario)))" by blast
  from n have "map c_Name (nodes_at h' roots) = [''express'']"
    by (simp add: example_defs marshal_defs map_eq_Cons_conv)
  with m show ?thesis by (intro exI conjI)
qed

text \<open>
  C3 as stated asks for a parent other than the package.  An indirect package that names
  only itself in \<open>DependsOn\<close> has no other parent in the Result, and yet it is left out:
  the forest is empty.
\<close>

theorem marshalPackages_root_selection_counterexample:
  "forest_of (marshalPackages pkgComponent env0 md0 res_self []) = Some ([], [])"
  by (simp add: example_defs marshal_defs)



section \<open>Claims about marshalResult and MarshalReport\<close>

text \<open>
  C10. A Result whose type is none of the five floating language-package types and whose
  class is neither OS-package nor language-package yields no components and no error, and
  the loop of \<open>MarshalReport\<close> goes on as if the Result were not there.
\<close>

theorem marshalResult_drops_other_results:
  assumes "res_Type result \<noteq> NodePkg" "res_Type result \<noteq> PythonPkg" "res_Type result \<noteq> GemSpec"
    "res_Type result \<noteq> Jar" "res_Type result \<noteq> CondaPkg"
    "res_Class result \<noteq> ClassOSPkg" "res_Class result \<noteq> ClassLangPkg"
  shows "marshalResult env metadata result h = Some (Inr ([], h)) \<and>
     marshalResults env metadata root (result # rest) h = marshalResults env metadata root rest h"
  using assms by (simp add: marshalResult_def append_children_def)

text \<open>A Terraform Result of class \<open>config\<close>: the root has no children.\<close>

theorem marshalResult_drops_other_results_witness:
  "marshalResult env0 md0 res_config [] = Some (Inr ([], [])) \<and>
   graph_of (MarshalReport env0 (mkReport ArtifactFilesystem [res_config])) = Some (0, [(''artifact'', [])])"
  using marshalResult_drops_other_results [of res_config env0 md0 "[]" 0 "[]"]
  by (simp add: example_defs marshal_defs)

text \<open>
  C7. When the \<open>range\<close> loops visit exactly the entries of the package maps,
  \<open>MarshalReport\<close> returns an error exactly when the identifier of the root fails
  (\<open>purl.New\<close> for a container image, \<open>purl.FromString\<close> for the non-empty package URL of
  a CycloneDX document), and a root with its store exactly when it does not.
\<close>

theorem MarshalReport_fails_iff_identifier_fails:
  assumes "\<forall>res\<in>set (Results r). range_ok env (packageMap env (rep_Metadata r) res)"
  shows "((\<exists>e. MarshalReport env r = Some (Inl e)) \<longleftrightarrow> identifier_fails env r) \<and>
     ((\<exists>root h. MarshalReport env r = Some (Inr (root, h))) \<longleftrightarrow> \<not> identifier_fails env r)"
proof (cases "rootComponent env r")
  case (Inl e)
  then have "identifier_fails env r" using rootComponent_error_iff [of env r] by simp
  then show ?thesis using MarshalReport_cases [OF assms] Inl by simp
next
  case (Inr rootc)
  then have "\<not> identifier_fails env r" using rootComponent_error_iff [of env r] by simp
  then show ?thesis using MarshalReport_cases [OF assms] Inr by auto
qed

text \<open>A container image whose package URL cannot be built: the error comes back wrapped.\<close>

theorem MarshalReport_fails_iff_identifier_fails_witness:
  "MarshalReport env_bad (mkReport ArtifactContainerImage [res_two]) =
     Some (Inl (Wrap ''failed to new package url for oci'' (Err ''invalid image reference'')))
   \<and> identifier_fails env_bad (mkReport ArtifactContainerImage [res_two])"
proof -
  have "\<forall>res\<in>set (Results (mkReport ArtifactContainerImage [res_two])).
      range_ok env_bad (packageMap env_bad (rep_Metadata (mkReport ArtifactContainerImage [res_two])) res)"
    by (simp add: range_ok_def env_bad_def env0_def)
  from MarshalReport_fails_iff_identifier_fails [OF this] show ?thesis
    by (simp add: identifier_fails_def example_defs marshal_defs)
qed

text \<open>
  C8, as the code has it.  The children of the root are, in the order of the Results,
  what each Result contributes (\<open>resultData\<close>): the root-level package components of a
  floating Result, one intermediate component of any other OS-package or language-package
  Result, and nothing for any other Result.  None of them is a nil pointer.
\<close>

theorem MarshalReport_children_in_Result_order:
  assumes "\<forall>res\<in>set (Results r). range_ok env (packageMap env (rep_Metadata r) res)"
    and "MarshalReport env r = Some (Inr (root, h))"
  shows "nodes_at h (c_Components (h ! root)) =
           concat (map (resultData env (rep_Metadata r)) (Results r)) \<and>
         None \<notin> set (c_Components (h ! root))"
proof (cases "rootComponent env r")
  case (Inl e)
  with assms(2) show ?thesis by (simp add: MarshalReport_def)
next
  case (Inr rootc)
  with MarshalReport_cases [OF assms(1)] assms(2) show ?thesis
    by (auto simp: fresh_in_def)
qed

text \<open>
  Three Results: a floating one with two direct packages, one of class \<open>config\<close>, and one
  with a lock file.  The root has three children, two of them from the first Result and
  none from the second.
\<close>

theorem MarshalReport_children_in_Result_order_witness:
  "\<exists>h. MarshalReport env0 (mkReport ArtifactFilesystem [res_two, res_config, res_scenario]) = Some (Inr (0, h)) \<and>
     map c_Name (nodes_at h (c_Components (h ! 0))) = [''a'', ''b'', ''/app/package-lock.json'']"
proof -
  let ?r = "mkReport ArtifactFilesystem [res_two, res_config, res_scenario]"
  have r: "\<forall>res\<in>set (Results ?r). range_ok env0 (packageMap env0 (rep_Metadata ?r) res)"
    by (simp add: range_ok_def env0_def)
  obtain h where m: "MarshalReport env0 ?r = Some (Inr (0, h))"
    using MarshalReport_cases [OF r] by (auto simp: example_defs marshal_defs)
  from MarshalReport_children_in_Result_order [OF r m]
  have "map c_Name (nodes_at h (c_Components (h ! 0))) = [''a'', ''b'', ''/app/package-lock.json'']"
    by (simp add: resultData_def floating_def rootData_def node_data_def example_defs marshal_defs)
  with m show ?thesis by (intro exI conjI)
qed

text \<open>
  C8 as stated promises one subtree for each Result.  A single floating Result with two
  direct packages gives the root two children.
\<close>

theorem MarshalReport_children_counterexample:
  "graph_of (MarshalReport env0 (mkReport ArtifactFilesystem [res_two])) =
     Some (0, [(''artifact'', [Some 1, Some 2]), (''a'', []), (''b'', [])])"
  by (simp add: example_defs marshal_defs)


text \<open>
  C9, as the code has it.  Two invocations on the same Report can differ only in the
  order in which the \<open>range\<close> loops visit the package maps.  Whatever these orders are,
  both invocations return the same error, or both return a graph, and the two graphs
  unfold to the same tree at every depth once the order of children is disregarded.
\<close>

theorem MarshalReport_deterministic_up_to_child_order:
  assumes "\<forall>res\<in>set (Results r). range_ok env (packageMap env (rep_Metadata r) res)"
    and "\<forall>res\<in>set (Results r).
           range_ok (env\<lparr>mapRange := f\<rparr>) (packageMap env (rep_Metadata r) res)"
  shows "(\<forall>e. MarshalReport (env\<lparr>mapRange := f\<rparr>) r = Some (Inl e) \<longleftrightarrow>
              MarshalReport env r = Some (Inl e)) \<and>
         (\<forall>root h. MarshalReport env r = Some (Inr (root, h)) \<longrightarrow>
            (\<exists>h'. MarshalReport (env\<lparr>mapRange := f\<rparr>) r = Some (Inr (root, h')) \<and>
                  (\<forall>d. mv d h' (Some root) = mv d h (Some root))))"
proof -
  let ?env' = "env\<lparr>mapRange := f\<rparr>"
  have a2: "\<forall>res\<in>set (Results r). range_ok ?env' (packageMap ?env' (rep_Metadata r) res)"
    using assms(2) by simp
  note t1 = MarshalReport_tree [OF assms(1)]
  note t2 = MarshalReport_tree [OF a2]
  show ?thesis
  proof (cases "rootComponent env r")
    case (Inl e)
    with t1 t2 show ?thesis by simp
  next
    case (Inr rootc)
    from t1 Inr obtain h1 where h1: "MarshalReport env r = Some (Inr (0, h1))"
      and v1: "\<And>d. mv d h1 (Some 0) = reportTree env d r" by auto
    from t2 Inr obtain h2 where h2: "MarshalReport ?env' r = Some (Inr (0, h2))"
      and v2: "\<And>d. mv d h2 (Some 0) = reportTree env d r" by auto
    show ?thesis using h1 h2 v1 v2 by simp
  qed
qed

text \<open>
  One Report, visited in the order of the package list and in the reverse order: the
  graphs agree up to the order of children, and the children of the root come in
  different orders.
\<close>

theorem MarshalReport_deterministic_up_to_child_order_witness:
  "\<exists>h h'. MarshalReport env0 (mkReport ArtifactFilesystem [res_two, res_scenario]) = Some (Inr (0, h)) \<and>
     MarshalReport env_rev (mkReport ArtifactFilesystem [res_two, res_scenario]) = Some (Inr (0, h')) \<and>
     (\<forall>d. mv d h' (Some 0) = mv d h (Some 0)) \<and>
     map c_Name (nodes_at h (c_Components (h ! 0))) = [''a'', ''b'', ''/app/package-lock.json''] \<and>
     map c_Name (nodes_at h' (c_Components (h' ! 0))) = [''b'', ''a'', ''/app/package-lock.json'']"
proof -
  let ?r = "mkReport ArtifactFilesystem [res_two, res_scenario]"
  have r1: "\<forall>res\<in>set (Results ?r). range_ok env0 (packageMap env0 (rep_Metadata ?r) res)"
    by (simp add: range_ok_def env0_def)
  have r2: "\<forall>res\<in>set (Results ?r).
      range_ok (env0\<lparr>mapRange := rev\<rparr>) (packageMap env0 (rep_Metadata ?r) res)"
    by (simp add: range_ok_def env0_def)
  obtain h where m: "MarshalReport env0 ?r = Some (Inr (0, h))"
    and n: "map c_Name (nodes_at h (c_Components (h ! 0))) = [''a'', ''b'', ''/app/package-lock.json'']"
    by (simp add: nodes_at_def node_data_def example_defs marshal_defs)
  from MarshalReport_deterministic_up_to_child_order [OF r1 r2] m obtain h' where
    m': "MarshalReport (env0\<lparr>mapRange := rev\<rparr>) ?r = Some (Inr (0, h'))"
    and v: "\<forall>d. mv d h' (Some 0) = mv d h (Some 0)" by blast
  from m' have "map c_Name (nodes_at h' (c_Components (h' ! 0))) =
      [''b'', ''a'', ''/app/package-lock.json'']"
    by (auto simp: nodes_at_def node_data_def example_defs marshal_defs)
  with m m' v n show ?thesis by (simp add: env_rev_def)
qed

text \<open>
  C9 as stated includes the order of the children.  Both orders of visiting the two
  packages of the Result are orders a \<open>range\<close> loop may take, and the two graphs differ:
  the first child of the root is \<open>a\<close> in one and \<open>b\<close> in the other.
\<close>

theorem MarshalReport_order_counterexample:
  "range_ok env0 (packageMap env0 md0 res_two) \<and> range_ok env_rev (packageMap env_rev md0 res_two) \<and>
   graph_of (MarshalReport env0 (mkReport ArtifactFilesystem [res_two])) =
     Some (0, [(''artifact'', [Some 1, Some 2]), (''a'', []), (''b'', [])]) \<and>
   graph_of (MarshalReport env_rev (mkReport ArtifactFilesystem [res_two])) =
     Some (0, [(''artifact'', [Some 1, Some 2]), (''b'', []), (''a'', [])])"
  by (simp add: range_ok_def example_defs marshal_defs)

end
